theory Spec2Isabelle
  imports Main "HOL-Library.Word"
begin

section \<open>Bytes, text and errors\<close>

text \<open>
  A \<open>Uint8Array\<close> is a list of 8-bit words. A JavaScript array of numbers (the argument of
  \<open>Base58.encode\<close> in \<open>Ed25519PubEncoder.encode\<close>) is a list of naturals.
\<close>

type_synonym byte = "8 word"
type_synonym bytes = "byte list"

text \<open>
  Every \<open>throw\<close> of \<open>index.ts\<close> and of the libraries it calls is a value of this type:
  \<^item> \<open>UnsupportedKeyType\<close>: \<open>Only ed25519 keys are supported\<close> (line 33);
  \<^item> \<open>UnsupportedAlgorithm\<close>: \<open>Unsupported pack algorithm: ...\<close> (line 116);
  \<^item> \<open>MissingSenderKey\<close>: \<open>Sender public key not provided in Authcrypt message\<close> (line 120);
  \<^item> \<open>MalformedRecipient\<close>: \<open>Invalid recipient header\<close> (line 271);
  \<^item> \<open>RecipientNotFound\<close>: \<open>No corresponding recipient key found in recipients\<close> (line 297);
  \<^item> \<open>Base58Error\<close>: the string thrown by \<open>Base58.decode\<close> on a character outside its alphabet;
  \<^item> \<open>SodiumError\<close>: any error thrown inside libsodium (a failed decryption, a malformed key,
    malformed base64, malformed UTF-8, operands of different lengths given to \<open>memcmp\<close>);
  \<^item> \<open>JsonError\<close>: the \<open>SyntaxError\<close> of \<open>JSON.parse\<close>, and a document whose fields do not
    have the types of the wire format.
\<close>

datatype error =
    UnsupportedKeyType
  | UnsupportedAlgorithm
  | MissingSenderKey
  | MalformedRecipient
  | RecipientNotFound
  | Base58Error
  | SodiumError
  | JsonError

definition bindE :: "error + 'a \<Rightarrow> ('a \<Rightarrow> error + 'b) \<Rightarrow> error + 'b" where
  "bindE m f = (case m of Inl e \<Rightarrow> Inl e | Inr x \<Rightarrow> f x)"

text \<open>\<open>s.startsWith(p)\<close> and \<open>s.slice(n)\<close> of JavaScript strings and arrays.\<close>

definition startsWith :: "'a list \<Rightarrow> 'a list \<Rightarrow> bool" where
  "startsWith s p = (take (length p) s = p)"

definition slice_from :: "nat \<Rightarrow> 'a list \<Rightarrow> 'a list" where
  "slice_from n s = drop n s"

section \<open>The base-58 codec (package \<open>base-58\<close>)\<close>

text \<open>
  \<open>index.ts\<close> imports \<open>Base58 = require('base-58')\<close>. The package keeps a little-endian array
  of digits and, for every input element, multiplies the array by the input radix, adds the
  element to the lowest digit and propagates the carries:
  \<^verbatim>\<open>
    j = 0; while (j < digits.length) { digits[j] <<= 8; j++ }
    digits[0] += buffer[i]
    carry = 0; j = 0
    while (j < digits.length) {
      digits[j] += carry; carry = (digits[j] / 58) | 0; digits[j] %= 58; ++j }
    while (carry) { digits.push(carry % 58); carry = (carry / 58) | 0 }
  \<close>
  \<open>decode\<close> runs the same loop with the radices exchanged (\<open>bytes[j] *= 58\<close>,
  \<open>carry = bytes[j] >> 8\<close>, \<open>bytes[j] &= 0xff\<close>). The functions below take the output radix
  \<open>B\<close> and the multiplier \<open>m\<close> as arguments so that both loops are one definition; the test
  \<open>B < 2\<close> in \<open>carry_digits\<close> only makes the definition total and is false at both call sites
  (\<open>B = 58\<close> and \<open>B = 256\<close>).
\<close>

text \<open>The position of a character in an alphabet, \<open>None\<close> for a character outside it.\<close>

definition char_index :: "string \<Rightarrow> char \<Rightarrow> nat option" where
  "char_index alphabet c =
     (if c \<in> set alphabet then Some (length (takeWhile (\<lambda>a. a \<noteq> c) alphabet)) else None)"

definition ALPHABET :: string where
  "ALPHABET = ''123456789ABCDEFGHJKLMNPQRSTUVWXYZabcdefghijkmnopqrstuvwxyz''"

function carry_digits :: "nat \<Rightarrow> nat \<Rightarrow> nat list" where
  "carry_digits B carry =
     (if carry = 0 \<or> B < 2 then [] else (carry mod B) # carry_digits B (carry div B))"
  by pat_completeness auto
termination
  by (relation "measure snd") auto

fun add_carry :: "nat \<Rightarrow> nat \<Rightarrow> nat list \<Rightarrow> nat list" where
  "add_carry B carry [] = carry_digits B carry"
| "add_carry B carry (d # ds) = ((d + carry) mod B) # add_carry B ((d + carry) div B) ds"

text \<open>One round of the outer loop. The digit array is never empty: it starts as \<open>[0]\<close>.\<close>

fun absorb :: "nat \<Rightarrow> nat \<Rightarrow> nat list \<Rightarrow> nat \<Rightarrow> nat list" where
  "absorb m B [] x = []"
| "absorb m B (d # ds) x = add_carry B 0 ((d * m + x) # map (\<lambda>e. e * m) ds)"

text \<open>
  \<open>i = 0; while (buffer[i] === 0 && i < buffer.length - 1) { digits.push(0); i++ }\<close>:
  the number of leading zeros, the last element not counted.
\<close>

definition leading :: "'a \<Rightarrow> 'a list \<Rightarrow> nat" where
  "leading z buffer = length (takeWhile (\<lambda>b. b = z) (butlast buffer))"

definition Base58_encode :: "nat list \<Rightarrow> string" where
  "Base58_encode buffer =
     (if buffer = [] then []
      else map (\<lambda>digit. ALPHABET ! digit)
             (rev (foldl (absorb 256 58) [0] buffer @ replicate (leading 0 buffer) 0)))"

text \<open>\<open>ALPHABET_MAP[c]\<close>, and \<open>None\<close> where \<open>c in ALPHABET_MAP\<close> is false.\<close>

definition ALPHABET_MAP :: "char \<Rightarrow> nat option" where
  "ALPHABET_MAP c = char_index ALPHABET c"

fun decode_loop :: "nat list \<Rightarrow> string \<Rightarrow> error + nat list" where
  "decode_loop bs [] = Inr bs"
| "decode_loop bs (c # cs) =
     (case ALPHABET_MAP c of
        None \<Rightarrow> Inl Base58Error
      | Some v \<Rightarrow> decode_loop (absorb 58 256 bs v) cs)"

definition Base58_decode :: "string \<Rightarrow> error + bytes" where
  "Base58_decode str =
     (if str = [] then Inr []
      else bindE (decode_loop [0] str)
             (\<lambda>bs. Inr (map of_nat (rev (bs @ replicate (leading (CHR ''1'') str) 0)))))"

section \<open>The key identifier codec (class \<open>Ed25519PubEncoder\<close>)\<close>

definition code :: nat where
  "code = 0xed01"

definition ed25519_encode :: "bytes \<Rightarrow> string" where
  "ed25519_encode bs = ''did:key:z'' @ Base58_encode (code # map unat bs)"

definition ed25519_decode :: "string \<Rightarrow> error + bytes" where
  "ed25519_decode key =
     (if \<not> startsWith key ''did:key:z6Mk'' then Inl UnsupportedKeyType
      else bindE (Base58_decode (slice_from (length ''did:key:z'') key)) (\<lambda>bs. Inr (slice_from 2 bs)))"

section \<open>Base64 (libsodium \<open>to_base64\<close> and \<open>from_base64\<close>)\<close>

text \<open>
  \<open>index.ts\<close> uses two of libsodium's \<open>base64_variants\<close>: \<open>URLSAFE\<close> (RFC 4648 section 5
  with \<open>=\<close> padding) and \<open>URLSAFE_NO_PADDING\<close>. The encoder cuts the input into groups of three
  bytes and writes four 6-bit digits for each; a last group of one or two bytes gives two or
  three digits whose unused low bits are zero. The decoder is strict, as libsodium's is without
  an \<open>ignore\<close> set: it reads digits up to the first character outside the alphabet, rejects
  a lone digit and non-zero unused bits, wants exactly the missing \<open>=\<close> signs in the
  padded variant, and nothing after them.
\<close>

datatype base64_variants = URLSAFE | URLSAFE_NO_PADDING

definition B64_URLSAFE :: string where
  "B64_URLSAFE = ''ABCDEFGHIJKLMNOPQRSTUVWXYZabcdefghijklmnopqrstuvwxyz0123456789-_''"

fun b64_digits :: "nat list \<Rightarrow> nat list" where
  "b64_digits (a # b # c # rest) =
     [a div 4, (a mod 4) * 16 + b div 16, (b mod 16) * 4 + c div 64, c mod 64] @ b64_digits rest"
| "b64_digits [a, b] = [a div 4, (a mod 4) * 16 + b div 16, (b mod 16) * 4]"
| "b64_digits [a] = [a div 4, (a mod 4) * 16]"
| "b64_digits [] = []"

definition b64_padding :: "nat \<Rightarrow> nat" where
  "b64_padding n = (4 - n mod 4) mod 4"

definition to_base64 :: "bytes \<Rightarrow> base64_variants \<Rightarrow> string" where
  "to_base64 input variant =
     (let text = map (\<lambda>d. B64_URLSAFE ! d) (b64_digits (map unat input))
      in case variant of
           URLSAFE \<Rightarrow> text @ replicate (b64_padding (length text)) (CHR ''='')
         | URLSAFE_NO_PADDING \<Rightarrow> text)"

fun b64_bytes :: "nat list \<Rightarrow> nat list option" where
  "b64_bytes (p # q # r # s # rest) =
     map_option (\<lambda>bs. [p * 4 + q div 16, (q mod 16) * 16 + r div 4, (r mod 4) * 64 + s] @ bs)
       (b64_bytes rest)"
| "b64_bytes [p, q, r] =
     (if r mod 4 = 0 then Some [p * 4 + q div 16, (q mod 16) * 16 + r div 4] else None)"
| "b64_bytes [p, q] = (if q mod 16 = 0 then Some [p * 4 + q div 16] else None)"
| "b64_bytes [p] = None"
| "b64_bytes [] = Some []"

definition from_base64 :: "string \<Rightarrow> base64_variants \<Rightarrow> error + bytes" where
  "from_base64 input variant =
     (let text = takeWhile (\<lambda>c. c \<in> set B64_URLSAFE) input;
          rest = dropWhile (\<lambda>c. c \<in> set B64_URLSAFE) input;
          padding = (case variant of URLSAFE \<Rightarrow> b64_padding (length text) | URLSAFE_NO_PADDING \<Rightarrow> 0)
      in case b64_bytes (map (\<lambda>c. the (char_index B64_URLSAFE c)) text) of
           None \<Rightarrow> Inl SodiumError
         | Some bs \<Rightarrow> if rest = replicate padding (CHR ''='') then Inr (map of_nat bs) else Inl SodiumError)"

section \<open>Node's \<open>Buffer.from\<close>\<close>

text \<open>
  A character of a \<open>string\<close> stands for a code unit below 256. \<open>Buffer.from(s, 'ascii')\<close>
  stores the low byte of every code unit; \<open>Buffer.from(s)\<close> encodes in UTF-8, one byte below
  128 and two bytes from 128 to 255.
\<close>

definition Buffer_from_ascii :: "string \<Rightarrow> bytes" where
  "Buffer_from_ascii s = map (\<lambda>c. of_nat (of_char c)) s"

definition utf8_unit :: "char \<Rightarrow> bytes" where
  "utf8_unit c =
     (let n = (of_char c :: nat)
      in if n < 128 then [of_nat n] else [of_nat (192 + n div 64), of_nat (128 + n mod 64)])"

definition Buffer_from :: "string \<Rightarrow> bytes" where
  "Buffer_from s = concat (map utf8_unit s)"

section \<open>The wire format\<close>

text \<open>
  An argument that libsodium accepts as a string or as a \<open>Uint8Array\<close>, and a key of the pair
  given to \<open>unpackMessage\<close>, which the caller may give as base-58 text.
\<close>

datatype data = Str string | Buf bytes

record 'k KeyPair =
  publicKey :: 'k
  privateKey :: 'k

text \<open>
  The documents that \<open>index.ts\<close> writes and reads, with the types of section 6 of the
  specification. A recipient entry may lack \<open>header\<close> or \<open>encrypted_key\<close> (line 270), and
  \<open>iv\<close> and \<open>sender\<close> may be \<open>null\<close>. The fields of the recipient header are written
  \<open>h_iv\<close>, \<open>h_kid\<close>, \<open>h_sender\<close> to keep them apart from the envelope's \<open>iv\<close>, and \<open>typ\<close> is written \<open>typ'\<close>.
\<close>

record recipient_header =
  h_iv :: "string option"
  h_kid :: string
  h_sender :: "string option"

record recipient =
  encrypted_key :: "string option"
  header :: "recipient_header option"

record protected_header =
  alg :: string
  enc :: string
  recipients :: "recipient list"
  typ' :: string

record envelope =
  ciphertext :: string
  iv :: string
  protected :: string
  tag :: string

datatype encMsg = Text string | Parsed envelope

record IUnpackedMsg =
  message :: string
  recipientKey :: string
  senderKey :: "string option"

text \<open>The JOSE header that \<open>signedAttachment\<close> serialises (lines 150 to 159).\<close>

record jose_jwk =
  jwk_crv :: string
  jwk_kid :: string
  jwk_kty :: string
  jwk_x :: string

record jose_header =
  jose_alg :: string
  jwk :: jose_jwk
  jose_kid :: string

text \<open>
  \<open>ISignedAttachment\<close>, flattened: \<open>data.base64\<close>, \<open>data.jws.header.kid\<close>,
  \<open>data.jws.protected\<close>, \<open>data.jws.signature\<close> and \<open>mime-type\<close>.
\<close>

record ISignedAttachment =
  base64 :: string
  jws_header_kid :: string
  jws_protected :: string
  jws_signature :: string
  mime_type :: string

section \<open>The libraries as parameters\<close>

text \<open>
  libsodium is not part of the repository: its primitives are the fields of a record, named as
  \<open>index.ts\<close> calls them, and every function of the class takes the record as its first
  argument, as the methods reach it through \<open>this.sodium\<close>. A primitive that draws random
  bytes takes the state \<open>'r\<close> of the generator and returns the new one; a primitive that can
  throw returns a sum. \<open>encrypt_detached\<close> takes the message, the associated data, the public
  nonce and the key, \<open>decrypt_detached\<close> the ciphertext, the tag, the associated data, the
  nonce and the key (the \<open>nsec\<close> argument is \<open>null\<close> in every call). The record also holds
  the XChaCha20 variant of the AEAD, which the library offers next to the one that lines 204
  to 211 call.
\<close>

record 'r sodium =
  from_string :: "string \<Rightarrow> bytes"
  to_string :: "bytes \<Rightarrow> error + string"
  randombytes_buf :: "nat \<Rightarrow> 'r \<Rightarrow> bytes \<times> 'r"
  crypto_sign_keypair :: "'r \<Rightarrow> bytes KeyPair \<times> 'r"
  crypto_sign_detached :: "bytes \<Rightarrow> bytes \<Rightarrow> error + bytes"
  crypto_sign_verify_detached :: "bytes \<Rightarrow> bytes \<Rightarrow> bytes \<Rightarrow> error + bool"
  crypto_sign_ed25519_pk_to_curve25519 :: "bytes \<Rightarrow> error + bytes"
  crypto_sign_ed25519_sk_to_curve25519 :: "bytes \<Rightarrow> error + bytes"
  crypto_box_NONCEBYTES :: nat
  crypto_box_seal :: "bytes \<Rightarrow> bytes \<Rightarrow> 'r \<Rightarrow> error + bytes \<times> 'r"
  crypto_box_seal_open :: "bytes \<Rightarrow> bytes \<Rightarrow> bytes \<Rightarrow> error + bytes"
  crypto_box_easy :: "bytes \<Rightarrow> bytes \<Rightarrow> bytes \<Rightarrow> bytes \<Rightarrow> error + bytes"
  crypto_box_open_easy :: "bytes \<Rightarrow> bytes \<Rightarrow> bytes \<Rightarrow> bytes \<Rightarrow> error + bytes"
  crypto_secretstream_xchacha20poly1305_keygen :: "'r \<Rightarrow> bytes \<times> 'r"
  crypto_aead_chacha20poly1305_ietf_NPUBBYTES :: nat
  crypto_aead_chacha20poly1305_ietf_encrypt_detached ::
    "bytes \<Rightarrow> bytes \<Rightarrow> bytes \<Rightarrow> bytes \<Rightarrow> error + bytes \<times> bytes"
  crypto_aead_chacha20poly1305_ietf_decrypt_detached ::
    "bytes \<Rightarrow> bytes \<Rightarrow> bytes \<Rightarrow> bytes \<Rightarrow> bytes \<Rightarrow> error + bytes"
  crypto_aead_xchacha20poly1305_ietf_NPUBBYTES :: nat
  crypto_aead_xchacha20poly1305_ietf_encrypt_detached ::
    "bytes \<Rightarrow> bytes \<Rightarrow> bytes \<Rightarrow> bytes \<Rightarrow> error + bytes \<times> bytes"
  crypto_aead_xchacha20poly1305_ietf_decrypt_detached ::
    "bytes \<Rightarrow> bytes \<Rightarrow> bytes \<Rightarrow> bytes \<Rightarrow> bytes \<Rightarrow> error + bytes"

text \<open>
  \<open>JSON.stringify\<close> and \<open>JSON.parse\<close>, at the types at which \<open>index.ts\<close> uses them: the
  envelope (lines 83 and 100), the protected header (lines 262 and 111), the JOSE header
  (line 150) and the payload of an attachment (lines 160 and 186), whose type \<open>'p\<close> stands for
  the values that JSON can carry.
\<close>

record 'p JSON =
  stringify_envelope :: "envelope \<Rightarrow> string"
  parse_envelope :: "string \<Rightarrow> error + envelope"
  stringify_header :: "protected_header \<Rightarrow> string"
  parse_header :: "string \<Rightarrow> error + protected_header"
  stringify_jose :: "jose_header \<Rightarrow> string"
  stringify :: "'p \<Rightarrow> string"
  parse :: "string \<Rightarrow> error + 'p"

text \<open>libsodium turns a string argument into its UTF-8 bytes.\<close>

definition any_to_Uint8Array :: "'r sodium \<Rightarrow> data \<Rightarrow> bytes" where
  "any_to_Uint8Array S input = (case input of Str s \<Rightarrow> from_string S s | Buf b \<Rightarrow> b)"

text \<open>\<open>sodium.memcmp\<close> throws when the operands differ in length.\<close>

definition memcmp :: "bytes \<Rightarrow> bytes \<Rightarrow> error + bool" where
  "memcmp b1 b2 = (if length b1 \<noteq> length b2 then Inl SodiumError else Inr (b1 = b2))"

text \<open>The truth value of a string or \<open>null\<close> in a condition: \<open>null\<close> and \<open>""\<close> are false.\<close>

definition truthy :: "string option \<Rightarrow> bool" where
  "truthy v = (case v of None \<Rightarrow> False | Some s \<Rightarrow> s \<noteq> [])"

section \<open>Class \<open>DIDComm\<close>\<close>

text \<open>
  A local variable whose name is also a field of a record above carries a prime
  (\<open>ciphertext'\<close>, \<open>iv'\<close>, \<open>tag'\<close>); the parameter \<open>message\<close> is written \<open>msg\<close>.
\<close>

subsection \<open>Base64 helpers (lines 134 to 139 and 189 to 201)\<close>

definition b64url :: "'r sodium \<Rightarrow> data \<Rightarrow> bool \<Rightarrow> string" where
  "b64url S input pad =
     (let padding = (if pad then URLSAFE else URLSAFE_NO_PADDING)
      in to_base64 (any_to_Uint8Array S input) padding)"

text \<open>\<open>while (input.length % 4 !== 0) { input += '=' }\<close>\<close>

function pad_to_4 :: "string \<Rightarrow> string" where
  "pad_to_4 input = (if length input mod 4 \<noteq> 0 then pad_to_4 (input @ ''='') else input)"
  by pat_completeness auto
termination
proof (relation "measure (\<lambda>input. (4 - length input mod 4) mod 4)")
  show "wf (measure (\<lambda>input :: string. (4 - length input mod 4) mod 4))" by simp
next
  fix input :: string
  assume a: "length input mod 4 \<noteq> 0"
  have "length input mod 4 < 4" by simp
  then consider "length input mod 4 = 1" | "length input mod 4 = 2" | "length input mod 4 = 3"
    using a by linarith
  then have "(4 - Suc (length input) mod 4) mod 4 < (4 - length input mod 4) mod 4"
    by cases (simp_all add: mod_Suc)
  then show "(input @ ''='', input) \<in> measure (\<lambda>input. (4 - length input mod 4) mod 4)"
    by simp
qed

definition b64dec :: "string \<Rightarrow> error + bytes" where
  "b64dec input = from_base64 (pad_to_4 input) URLSAFE"

definition strB64dec :: "'r sodium \<Rightarrow> string \<Rightarrow> error + string" where
  "strB64dec S input = bindE (b64dec input) (to_string S)"

subsection \<open>Content encryption (lines 203 to 220)\<close>

definition encryptPlaintext ::
  "'r sodium \<Rightarrow> data \<Rightarrow> data \<Rightarrow> bytes \<Rightarrow> 'r \<Rightarrow> error + (bytes \<times> bytes \<times> bytes) \<times> 'r" where
  "encryptPlaintext S msg addData key g =
     (let (iv', g') = randombytes_buf S (crypto_aead_chacha20poly1305_ietf_NPUBBYTES S) g
      in bindE (crypto_aead_chacha20poly1305_ietf_encrypt_detached S
                  (any_to_Uint8Array S msg) (any_to_Uint8Array S addData) iv' key)
           (\<lambda>(out_ciphertext, out_mac). Inr ((out_ciphertext, out_mac, iv'), g')))"

definition decryptPlaintext ::
  "'r sodium \<Rightarrow> bytes \<Rightarrow> bytes \<Rightarrow> data \<Rightarrow> bytes \<Rightarrow> bytes \<Rightarrow> error + string" where
  "decryptPlaintext S ciphertext' mac recipsBin nonce key =
     bindE (crypto_aead_chacha20poly1305_ietf_decrypt_detached S
              ciphertext' mac (any_to_Uint8Array S recipsBin) nonce key)
       (to_string S)"

subsection \<open>Wrapping the content key (lines 222 to 263)\<close>

text \<open>
  The body of the \<open>forEach\<close> callback for one \<open>targetVk\<close>. \<open>nonce\<close> and \<open>encSender\<close> are
  \<open>Uint8Array\<close>s when a sender is given, and an object is true in a condition, so lines 248
  and 250 write both fields then and \<open>null\<close> otherwise.
\<close>

definition wrap_for ::
  "'r sodium \<Rightarrow> bytes \<Rightarrow> bytes KeyPair option \<Rightarrow> bytes \<Rightarrow> 'r \<Rightarrow> error + recipient \<times> 'r" where
  "wrap_for S cek fromKeys targetVk g =
     bindE (crypto_sign_ed25519_pk_to_curve25519 S targetVk) (\<lambda>targetPk.
       case fromKeys of
         Some keys \<Rightarrow>
           (let senderVk = Base58_encode (map unat (publicKey keys))
            in bindE (crypto_sign_ed25519_sk_to_curve25519 S (privateKey keys)) (\<lambda>senderSk.
               bindE (crypto_box_seal S (any_to_Uint8Array S (Str senderVk)) targetPk g)
                 (\<lambda>(encSender, g1).
                    (let (nonce, g2) = randombytes_buf S (crypto_box_NONCEBYTES S) g1
                     in bindE (crypto_box_easy S cek nonce targetPk senderSk) (\<lambda>encCek.
                          Inr (\<lparr>encrypted_key = Some (b64url S (Buf encCek) True),
                                header = Some \<lparr>h_iv = Some (b64url S (Buf nonce) True),
                                               h_kid = Base58_encode (map unat targetVk),
                                               h_sender = Some (b64url S (Buf encSender) True)\<rparr>\<rparr>,
                               g2))))))
       | None \<Rightarrow>
           bindE (crypto_box_seal S cek targetPk g) (\<lambda>(encCek, g1).
             Inr (\<lparr>encrypted_key = Some (b64url S (Buf encCek) True),
                   header = Some \<lparr>h_iv = None,
                                  h_kid = Base58_encode (map unat targetVk),
                                  h_sender = None\<rparr>\<rparr>,
                  g1)))"

fun wrap_all ::
  "'r sodium \<Rightarrow> bytes \<Rightarrow> bytes KeyPair option \<Rightarrow> bytes list \<Rightarrow> 'r \<Rightarrow> error + recipient list \<times> 'r" where
  "wrap_all S cek fromKeys [] g = Inr ([], g)"
| "wrap_all S cek fromKeys (targetVk # rest) g =
     bindE (wrap_for S cek fromKeys targetVk g) (\<lambda>(recip, g1).
       bindE (wrap_all S cek fromKeys rest g1) (\<lambda>(recips, g2). Inr (recip # recips, g2)))"

definition prepareRecipientKeys ::
  "'r sodium \<Rightarrow> 'p JSON \<Rightarrow> bytes list \<Rightarrow> bytes KeyPair option \<Rightarrow> 'r
     \<Rightarrow> error + (string \<times> bytes) \<times> 'r" where
  "prepareRecipientKeys S J toKeys fromKeys g =
     (let (cek, g0) = crypto_secretstream_xchacha20poly1305_keygen S g
      in bindE (wrap_all S cek fromKeys toKeys g0) (\<lambda>(recips, g1).
           (let data = \<lparr>alg = (if fromKeys \<noteq> None then ''Authcrypt'' else ''Anoncrypt''),
                        enc = ''xchacha20poly1305_ietf'',
                        recipients = recips,
                        typ' = ''JWM/1.0''\<rparr>
            in Inr ((stringify_header J data, cek), g1))))"

subsection \<open>\<open>packMessage\<close> (lines 75 to 89)\<close>

definition packMessage ::
  "'r sodium \<Rightarrow> 'p JSON \<Rightarrow> string \<Rightarrow> bytes list \<Rightarrow> bytes KeyPair option \<Rightarrow> 'r
     \<Rightarrow> error + string \<times> 'r" where
  "packMessage S J msg toKeys fromKeys g =
     bindE (prepareRecipientKeys S J toKeys fromKeys g) (\<lambda>((recipsJson, cek), g1).
       (let recipsB64 = b64url S (Str recipsJson) True
        in bindE (encryptPlaintext S (Str msg) (Str recipsB64) cek g1)
             (\<lambda>((ciphertext', tag', iv'), g2).
                Inr (stringify_envelope J
                       \<lparr>ciphertext = b64url S (Buf ciphertext') True,
                        iv = b64url S (Buf iv') True,
                        protected = recipsB64,
                        tag = b64url S (Buf tag') True\<rparr>,
                     g2))))"

subsection \<open>\<open>locateRecKey\<close> (lines 265 to 298)\<close>

text \<open>\<open>x ? this.b64dec(x) : null\<close> for a field \<open>x\<close> of the recipient header.\<close>

definition b64dec_if :: "string option \<Rightarrow> error + bytes option" where
  "b64dec_if x = (if truthy x then bindE (b64dec (the x)) (\<lambda>b. Inr (Some b)) else Inr None)"

text \<open>
  The \<open>for ... in\<close> loop. Its body ends in \<open>return\<close> on every path that does not throw, so
  the second equation never looks at \<open>rest\<close>; \<open>notFound.push\<close> changes an array that nothing
  reads, so the result of \<open>memcmp\<close> is dropped once the call has not thrown. The result is
  \<open>[cek, senderVk, recip.header.kid]\<close>.
\<close>

fun locateRecKey ::
  "'r sodium \<Rightarrow> recipient list \<Rightarrow> bytes KeyPair \<Rightarrow> error + bytes \<times> string option \<times> string" where
  "locateRecKey S [] keys = Inl RecipientNotFound"
| "locateRecKey S (recip # rest) keys =
     (case (header recip, encrypted_key recip) of
        (Some hdr, Some ek) \<Rightarrow>
          bindE (Base58_decode (h_kid hdr)) (\<lambda>recipVk.
          bindE (memcmp recipVk (publicKey keys)) (\<lambda>same.
          bindE (crypto_sign_ed25519_pk_to_curve25519 S (publicKey keys)) (\<lambda>pk.
          bindE (crypto_sign_ed25519_sk_to_curve25519 S (privateKey keys)) (\<lambda>sk.
          bindE (b64dec ek) (\<lambda>encrytpedKey.
          bindE (b64dec_if (h_iv hdr)) (\<lambda>nonce.
          bindE (b64dec_if (h_sender hdr)) (\<lambda>encSender.
            case (nonce, encSender) of
              (Some nonce', Some encSender') \<Rightarrow>
                bindE (crypto_box_seal_open S encSender' pk sk) (\<lambda>opened.
                bindE (to_string S opened) (\<lambda>senderVk.
                bindE (Base58_decode senderVk) (\<lambda>senderVkRaw.
                bindE (crypto_sign_ed25519_pk_to_curve25519 S senderVkRaw) (\<lambda>senderPk.
                bindE (crypto_box_open_easy S encrytpedKey nonce' senderPk sk) (\<lambda>cek.
                  Inr (cek, Some senderVk, h_kid hdr))))))
            | _ \<Rightarrow>
                bindE (crypto_box_seal_open S encrytpedKey pk sk) (\<lambda>cek.
                  Inr (cek, None, h_kid hdr)))))))))
      | _ \<Rightarrow> Inl MalformedRecipient)"

subsection \<open>\<open>unpackMessage\<close> (lines 96 to 132)\<close>

definition normalize_key :: "data \<Rightarrow> error + bytes" where
  "normalize_key k = (case k of Str s \<Rightarrow> Base58_decode s | Buf b \<Rightarrow> Inr b)"

definition unpackMessage ::
  "'r sodium \<Rightarrow> 'p JSON \<Rightarrow> encMsg \<Rightarrow> data KeyPair \<Rightarrow> error + IUnpackedMsg" where
  "unpackMessage S J encMsg toKeys =
     bindE (case encMsg of Text s \<Rightarrow> parse_envelope J s | Parsed w \<Rightarrow> Inr w) (\<lambda>wrapper.
     bindE (normalize_key (publicKey toKeys)) (\<lambda>pk.
     bindE (normalize_key (privateKey toKeys)) (\<lambda>sk.
     bindE (strB64dec S (protected wrapper)) (\<lambda>recipsJson.
     bindE (parse_header J recipsJson) (\<lambda>recipsOuter.
       (let isAuthcrypt = (alg recipsOuter = ''Authcrypt'')
        in if \<not> isAuthcrypt \<and> alg recipsOuter \<noteq> ''Anoncrypt'' then Inl UnsupportedAlgorithm
           else
             bindE (locateRecKey S (recipients recipsOuter) \<lparr>publicKey = pk, privateKey = sk\<rparr>)
               (\<lambda>(cek, senderVk, recipVk).
                  if \<not> truthy senderVk \<and> isAuthcrypt then Inl MissingSenderKey
                  else
                    bindE (b64dec (ciphertext wrapper)) (\<lambda>ciphertext'.
                    bindE (b64dec (iv wrapper)) (\<lambda>nonce.
                    bindE (b64dec (tag wrapper)) (\<lambda>tag'.
                    bindE (decryptPlaintext S ciphertext' tag' (Str (protected wrapper)) nonce cek)
                      (\<lambda>message'.
                         Inr \<lparr>message = message',
                              recipientKey = recipVk,
                              senderKey = senderVk\<rparr>)))))))))))"

subsection \<open>Key pairs and signed attachments (lines 144 to 187)\<close>

definition generateKeyPair :: "'r sodium \<Rightarrow> 'r \<Rightarrow> bytes KeyPair \<times> 'r" where
  "generateKeyPair S g = crypto_sign_keypair S g"

definition signedAttachment ::
  "'r sodium \<Rightarrow> 'p JSON \<Rightarrow> 'p \<Rightarrow> bytes KeyPair \<Rightarrow> error + ISignedAttachment" where
  "signedAttachment S J data' keys =
     (let didkey = ed25519_encode (publicKey keys);
          protectedHeaders =
            b64url S (Str (stringify_jose J
              \<lparr>jose_alg = ''EdDSA'',
               jwk = \<lparr>jwk_crv = ''Ed25519'',
                      jwk_kid = didkey,
                      jwk_kty = ''OKP'',
                      jwk_x = b64url S (Buf (publicKey keys)) False\<rparr>,
               jose_kid = didkey\<rparr>)) False;
          sigData = b64url S (Str (stringify J data')) False
      in bindE (crypto_sign_detached S
                  (Buffer_from_ascii (protectedHeaders @ ''.'' @ sigData)) (privateKey keys))
           (\<lambda>sig. Inr \<lparr>base64 = sigData,
                        jws_header_kid = didkey,
                        jws_protected = protectedHeaders,
                        jws_signature = b64url S (Buf sig) False,
                        mime_type = ''application/json''\<rparr>))"

definition verifySignedAttachment :: "'r sodium \<Rightarrow> ISignedAttachment \<Rightarrow> error + bool" where
  "verifySignedAttachment S attachment =
     (let signedInput = Buffer_from (jws_protected attachment @ ''.'' @ base64 attachment)
      in bindE (b64dec (jws_signature attachment)) (\<lambda>signature.
         bindE (ed25519_decode (jws_header_kid attachment)) (\<lambda>key.
           crypto_sign_verify_detached S signature signedInput key)))"

definition decodeSignedAttachment :: "'r sodium \<Rightarrow> 'p JSON \<Rightarrow> ISignedAttachment \<Rightarrow> error + 'p" where
  "decodeSignedAttachment S J attachment = bindE (strB64dec S (base64 attachment)) (parse J)"

section \<open>An instance of the libraries\<close>

text \<open>
  The theorems below hold for every library that satisfies the laws they assume. This section
  gives one such library, on which the functions can be run: its generator counts, a public
  key is its secret key with every byte increased by one, a sealed box is an ephemeral value,
  the recipient's key and the plaintext, a box is the sender's key, the recipient's key, the
  nonce and the plaintext, and a tag or signature is the data it covers. Opening with another
  key fails, as in libsodium; nothing is hidden.
\<close>

definition ref_random :: "nat \<Rightarrow> nat \<Rightarrow> bytes \<times> nat" where
  "ref_random n g = (map (\<lambda>i. of_nat (g + i)) [0..<n], g + n)"

definition ref_public :: "bytes \<Rightarrow> bytes" where
  "ref_public sk = map (\<lambda>b. b + 1) sk"

definition ref_keypair :: "nat \<Rightarrow> bytes KeyPair \<times> nat" where
  "ref_keypair g =
     (let (seed, g') = ref_random 32 g
      in (\<lparr>publicKey = ref_public seed, privateKey = seed @ ref_public seed\<rparr>, g'))"

definition ref_seal :: "bytes \<Rightarrow> bytes \<Rightarrow> nat \<Rightarrow> error + bytes \<times> nat" where
  "ref_seal m pk g =
     (if length pk \<noteq> 32 then Inl SodiumError
      else (let (eph, g') = ref_random 32 g in Inr (eph @ pk @ m, g')))"

definition ref_seal_open :: "bytes \<Rightarrow> bytes \<Rightarrow> bytes \<Rightarrow> error + bytes" where
  "ref_seal_open c pk sk =
     (if 64 \<le> length c \<and> take 32 (drop 32 c) = pk \<and> ref_public sk = pk
      then Inr (drop 64 c) else Inl SodiumError)"

definition ref_box :: "bytes \<Rightarrow> bytes \<Rightarrow> bytes \<Rightarrow> bytes \<Rightarrow> error + bytes" where
  "ref_box m n pk sk =
     (if length pk \<noteq> 32 \<or> length sk \<noteq> 32 then Inl SodiumError
      else Inr (ref_public sk @ pk @ n @ m))"

definition ref_box_open :: "bytes \<Rightarrow> bytes \<Rightarrow> bytes \<Rightarrow> bytes \<Rightarrow> error + bytes" where
  "ref_box_open c n pk sk =
     (if length pk = 32 \<and> length sk = 32 \<and> 64 + length n \<le> length c
         \<and> take 32 c = pk \<and> take 32 (drop 32 c) = ref_public sk
         \<and> take (length n) (drop 64 c) = n
      then Inr (drop (64 + length n) c) else Inl SodiumError)"

definition ref_aead_encrypt :: "bytes \<Rightarrow> bytes \<Rightarrow> bytes \<Rightarrow> bytes \<Rightarrow> bytes \<Rightarrow> error + bytes \<times> bytes" where
  "ref_aead_encrypt label m ad npub key = Inr (m, label @ key @ npub @ ad @ m)"

definition ref_aead_decrypt :: "bytes \<Rightarrow> bytes \<Rightarrow> bytes \<Rightarrow> bytes \<Rightarrow> bytes \<Rightarrow> bytes \<Rightarrow> error + bytes" where
  "ref_aead_decrypt label c mac ad npub key =
     (if mac = label @ key @ npub @ ad @ c then Inr c else Inl SodiumError)"

definition ref_sodium :: "nat sodium" where
  "ref_sodium =
     \<lparr>from_string = (\<lambda>s. map (\<lambda>c. of_nat (of_char c)) s),
      to_string = (\<lambda>b. Inr (map (\<lambda>w. char_of (unat w)) b)),
      randombytes_buf = ref_random,
      crypto_sign_keypair = ref_keypair,
      crypto_sign_detached =
        (\<lambda>m sk. if length sk = 64 then Inr (take 32 sk @ m) else Inl SodiumError),
      crypto_sign_verify_detached =
        (\<lambda>sig m pk. if length pk = 32 then Inr (ref_public (take 32 sig) = pk \<and> drop 32 sig = m)
                     else Inl SodiumError),
      crypto_sign_ed25519_pk_to_curve25519 =
        (\<lambda>pk. if length pk = 32 then Inr pk else Inl SodiumError),
      crypto_sign_ed25519_sk_to_curve25519 =
        (\<lambda>sk. if length sk = 64 then Inr (take 32 sk) else Inl SodiumError),
      crypto_box_NONCEBYTES = 24,
      crypto_box_seal = ref_seal,
      crypto_box_seal_open = ref_seal_open,
      crypto_box_easy = ref_box,
      crypto_box_open_easy = ref_box_open,
      crypto_secretstream_xchacha20poly1305_keygen = ref_random 32,
      crypto_aead_chacha20poly1305_ietf_NPUBBYTES = 12,
      crypto_aead_chacha20poly1305_ietf_encrypt_detached = ref_aead_encrypt [0],
      crypto_aead_chacha20poly1305_ietf_decrypt_detached = ref_aead_decrypt [0],
      crypto_aead_xchacha20poly1305_ietf_NPUBBYTES = 24,
      crypto_aead_xchacha20poly1305_ietf_encrypt_detached = ref_aead_encrypt [1],
      crypto_aead_xchacha20poly1305_ietf_decrypt_detached = ref_aead_decrypt [1]\<rparr>"

text \<open>
  The serialiser of the instance writes a string as its length in \<open>+\<close> signs, a colon and
  the string, \<open>null\<close> as \<open>n\<close>, and a list as its length followed by its elements; the parser
  reads the same format back. The payload of an attachment is an object whose fields are
  strings, as \<open>{test: 'test'}\<close> in the repository's tests.
\<close>

definition put_string :: "string \<Rightarrow> string" where
  "put_string s = replicate (length s) (CHR ''+'') @ CHR '':'' # s"

definition get_string :: "string \<Rightarrow> string \<times> string" where
  "get_string t =
     (let n = length (takeWhile (\<lambda>c. c = CHR ''+'') t)
      in (take n (drop (Suc n) t), drop (Suc n + n) t))"

definition put_option :: "string option \<Rightarrow> string" where
  "put_option v = (case v of None \<Rightarrow> ''n'' | Some s \<Rightarrow> CHR ''s'' # put_string s)"

definition get_option :: "string \<Rightarrow> string option \<times> string" where
  "get_option t =
     (case t of
        [] \<Rightarrow> (None, [])
      | c # r \<Rightarrow> if c = CHR ''s'' then (let (s, r') = get_string r in (Some s, r')) else (None, r))"

definition put_list :: "('a \<Rightarrow> string) \<Rightarrow> 'a list \<Rightarrow> string" where
  "put_list put xs = replicate (length xs) (CHR ''+'') @ CHR '':'' # concat (map put xs)"

fun get_many :: "(string \<Rightarrow> 'a \<times> string) \<Rightarrow> nat \<Rightarrow> string \<Rightarrow> 'a list \<times> string" where
  "get_many get 0 t = ([], t)"
| "get_many get (Suc n) t =
     (let (v, t1) = get t; (vs, t2) = get_many get n t1 in (v # vs, t2))"

definition get_list :: "(string \<Rightarrow> 'a \<times> string) \<Rightarrow> string \<Rightarrow> 'a list \<times> string" where
  "get_list get t =
     (let n = length (takeWhile (\<lambda>c. c = CHR ''+'') t) in get_many get n (drop (Suc n) t))"

definition put_recipient :: "recipient \<Rightarrow> string" where
  "put_recipient r =
     put_option (encrypted_key r) @
     (case header r of
        None \<Rightarrow> ''n''
      | Some h \<Rightarrow> CHR ''h'' # put_option (h_iv h) @ put_string (h_kid h) @ put_option (h_sender h))"

definition get_recipient :: "string \<Rightarrow> recipient \<times> string" where
  "get_recipient t =
     (let (ek, t1) = get_option t
      in case t1 of
           [] \<Rightarrow> (\<lparr>encrypted_key = ek, header = None\<rparr>, [])
         | c # r \<Rightarrow>
             if c = CHR ''h''
             then (let (i, t2) = get_option r; (k, t3) = get_string t2; (s, t4) = get_option t3
                   in (\<lparr>encrypted_key = ek,
                        header = Some \<lparr>h_iv = i, h_kid = k, h_sender = s\<rparr>\<rparr>, t4))
             else (\<lparr>encrypted_key = ek, header = None\<rparr>, r))"

definition put_field :: "string \<times> string \<Rightarrow> string" where
  "put_field kv = put_string (fst kv) @ put_string (snd kv)"

definition get_field :: "string \<Rightarrow> (string \<times> string) \<times> string" where
  "get_field t = (let (k, t1) = get_string t; (v, t2) = get_string t1 in ((k, v), t2))"

definition ref_JSON :: "(string \<times> string) list JSON" where
  "ref_JSON =
     \<lparr>stringify_envelope =
        (\<lambda>w. put_string (ciphertext w) @ put_string (iv w) @ put_string (protected w)
              @ put_string (tag w)),
      parse_envelope =
        (\<lambda>t. let (c, t1) = get_string t; (i, t2) = get_string t1;
                  (p, t3) = get_string t2; (g, t4) = get_string t3
              in Inr \<lparr>ciphertext = c, iv = i, protected = p, tag = g\<rparr>),
      stringify_header =
        (\<lambda>h. put_string (alg h) @ put_string (enc h) @ put_list put_recipient (recipients h)
              @ put_string (typ' h)),
      parse_header =
        (\<lambda>t. let (a, t1) = get_string t; (e, t2) = get_string t1;
                  (rs, t3) = get_list get_recipient t2; (y, t4) = get_string t3
              in Inr \<lparr>alg = a, enc = e, recipients = rs, typ' = y\<rparr>),
      stringify_jose =
        (\<lambda>h. put_string (jose_alg h) @ put_string (jwk_crv (jwk h)) @ put_string (jwk_kid (jwk h))
              @ put_string (jwk_kty (jwk h)) @ put_string (jwk_x (jwk h)) @ put_string (jose_kid h)),
      stringify = put_list put_field,
      parse = (\<lambda>t. Inr (fst (get_list get_field t)))\<rparr>"

section \<open>Laws of the libraries\<close>

text \<open>
  What the proofs assume of the parameters. Each law is a documented property of the library:
  decoding undoes encoding, opening undoes sealing for the key pair the box was made for,
  a signature verifies under the key pair that made it. A key pair is one that
  \<open>crypto_sign_keypair\<close> can return, which is what \<open>generateKeyPair\<close> hands out.
\<close>

definition keypair_of :: "'r sodium \<Rightarrow> bytes KeyPair \<Rightarrow> bool" where
  "keypair_of S kp = (\<exists>g. kp = fst (crypto_sign_keypair S g))"

definition curve_keys :: "'r sodium \<Rightarrow> bytes KeyPair \<Rightarrow> bytes \<Rightarrow> bytes \<Rightarrow> bool" where
  "curve_keys S kp pk sk =
     (crypto_sign_ed25519_pk_to_curve25519 S (publicKey kp) = Inr pk \<and>
      crypto_sign_ed25519_sk_to_curve25519 S (privateKey kp) = Inr sk)"

definition utf8_laws :: "'r sodium \<Rightarrow> bool" where
  "utf8_laws S = (\<forall>s. to_string S (from_string S s) = Inr s)"

definition json_laws :: "'p JSON \<Rightarrow> bool" where
  "json_laws J =
     ((\<forall>w. parse_envelope J (stringify_envelope J w) = Inr w) \<and>
      (\<forall>h. parse_header J (stringify_header J h) = Inr h) \<and>
      (\<forall>v. parse J (stringify J v) = Inr v))"

definition key_laws :: "'r sodium \<Rightarrow> bool" where
  "key_laws S =
     (\<forall>kp. keypair_of S kp \<longrightarrow>
        length (publicKey kp) = 32 \<and> (\<exists>pk sk. curve_keys S kp pk sk))"

definition box_laws :: "'r sodium \<Rightarrow> bool" where
  "box_laws S =
     (0 < crypto_box_NONCEBYTES S \<and>
      (\<forall>n g. length (fst (randombytes_buf S n g)) = n) \<and>
      (\<forall>kp pk sk m g. keypair_of S kp \<and> curve_keys S kp pk sk \<longrightarrow>
         (\<exists>c g'. crypto_box_seal S m pk g = Inr (c, g') \<and> c \<noteq> [] \<and>
                  crypto_box_seal_open S c pk sk = Inr m)) \<and>
      (\<forall>kpA pkA skA kpB pkB skB m n.
         keypair_of S kpA \<and> curve_keys S kpA pkA skA \<and>
         keypair_of S kpB \<and> curve_keys S kpB pkB skB \<and>
         length n = crypto_box_NONCEBYTES S \<longrightarrow>
         (\<exists>c. crypto_box_easy S m n pkB skA = Inr c \<and>
               crypto_box_open_easy S c n pkA skB = Inr m)))"

definition aead_laws :: "'r sodium \<Rightarrow> bool" where
  "aead_laws S =
     (\<forall>g m ad n. length n = crypto_aead_chacha20poly1305_ietf_NPUBBYTES S \<longrightarrow>
        (\<exists>c t. crypto_aead_chacha20poly1305_ietf_encrypt_detached S m ad n
                  (fst (crypto_secretstream_xchacha20poly1305_keygen S g)) = Inr (c, t) \<and>
                crypto_aead_chacha20poly1305_ietf_decrypt_detached S c t ad n
                  (fst (crypto_secretstream_xchacha20poly1305_keygen S g)) = Inr m))"

definition sign_laws :: "'r sodium \<Rightarrow> bool" where
  "sign_laws S =
     (\<forall>kp m. keypair_of S kp \<longrightarrow>
        (\<exists>sig. crypto_sign_detached S m (privateKey kp) = Inr sig \<and>
               crypto_sign_verify_detached S sig m (publicKey kp) = Inr True))"

section \<open>Notions used in the proofs\<close>

text \<open>
  The value of a little-endian digit list, the \<open>k\<close> lowest digits of a number, the value of
  a big-endian list as the codec's outer loop accumulates it, and the digit array after the
  loop: \<open>[0]\<close> for zero, the digits without a leading zero otherwise.
\<close>

fun lval :: "nat \<Rightarrow> nat list \<Rightarrow> nat" where
  "lval B [] = 0"
| "lval B (d # ds) = d + B * lval B ds"

fun low_digits :: "nat \<Rightarrow> nat \<Rightarrow> nat \<Rightarrow> nat list" where
  "low_digits B 0 v = []"
| "low_digits B (Suc k) v = (v mod B) # low_digits B k (v div B)"

definition be_val :: "nat \<Rightarrow> nat list \<Rightarrow> nat" where
  "be_val m xs = foldl (\<lambda>v x. v * m + x) 0 xs"

definition canon :: "nat \<Rightarrow> nat \<Rightarrow> nat list" where
  "canon B v = (if v = 0 then [0] else carry_digits B v)"

text \<open>A key pair as \<open>unpackMessage\<close> takes it, both keys given as bytes.\<close>

definition raw_keys :: "bytes KeyPair \<Rightarrow> data KeyPair" where
  "raw_keys kp = \<lparr>publicKey = Buf (publicKey kp), privateKey = Buf (privateKey kp)\<rparr>"

text \<open>
  The sender given to \<open>packMessage\<close> is \<open>null\<close> or a key pair of the library. \<open>rejects\<close>
  says that what is sealed for the first key pair does not open under the second: libsodium
  throws there. \<open>kid_of\<close> is the base-58 text of a public key, and \<open>wraps\<close> describes the
  recipient entry that line 244 pushes for a key pair, with what opens it.
\<close>

definition sender_ok :: "'r sodium \<Rightarrow> bytes KeyPair option \<Rightarrow> bool" where
  "sender_ok S fromKeys = (case fromKeys of None \<Rightarrow> True | Some keys \<Rightarrow> keypair_of S keys)"

definition rejects :: "'r sodium \<Rightarrow> bytes KeyPair \<Rightarrow> bytes KeyPair \<Rightarrow> bool" where
  "rejects S kpB kpC =
     (\<forall>pkB skB pkC skC m g c g'.
        curve_keys S kpB pkB skB \<and> curve_keys S kpC pkC skC \<and>
        crypto_box_seal S m pkB g = Inr (c, g') \<longrightarrow>
        crypto_box_seal_open S c pkC skC = Inl SodiumError)"

definition kid_of :: "bytes KeyPair \<Rightarrow> string" where
  "kid_of kp = Base58_encode (map unat (publicKey kp))"

definition wraps ::
  "'r sodium \<Rightarrow> bytes \<Rightarrow> bytes KeyPair option \<Rightarrow> bytes KeyPair \<Rightarrow> recipient \<Rightarrow> bool" where
  "wraps S cek fromKeys kp r =
     (\<exists>pk sk. curve_keys S kp pk sk \<and>
       (case fromKeys of
          None \<Rightarrow>
            (\<exists>c g g'. crypto_box_seal S cek pk g = Inr (c, g') \<and>
               crypto_box_seal_open S c pk sk = Inr cek \<and>
               r = \<lparr>encrypted_key = Some (b64url S (Buf c) True),
                    header = Some \<lparr>h_iv = None, h_kid = kid_of kp, h_sender = None\<rparr>\<rparr>)
        | Some kpA \<Rightarrow>
            (\<exists>pkA skA es g g1 n c. curve_keys S kpA pkA skA \<and>
               crypto_box_seal S (from_string S (kid_of kpA)) pk g = Inr (es, g1) \<and>
               es \<noteq> [] \<and> n \<noteq> [] \<and>
               crypto_box_seal_open S es pk sk = Inr (from_string S (kid_of kpA)) \<and>
               crypto_box_open_easy S c n pkA sk = Inr cek \<and>
               r = \<lparr>encrypted_key = Some (b64url S (Buf c) True),
                    header = Some \<lparr>h_iv = Some (b64url S (Buf n) True), h_kid = kid_of kp,
                                   h_sender = Some (b64url S (Buf es) True)\<rparr>\<rparr>)))"

text \<open>
  The protected header that line 256 assembles from the recipient entries, its encoded form
  (line 79), and the envelope of lines 83 to 88.
\<close>

definition header_of :: "bytes KeyPair option \<Rightarrow> recipient list \<Rightarrow> protected_header" where
  "header_of fromKeys rs =
     \<lparr>alg = (if fromKeys \<noteq> None then ''Authcrypt'' else ''Anoncrypt''),
      enc = ''xchacha20poly1305_ietf'', recipients = rs, typ' = ''JWM/1.0''\<rparr>"

definition protected_of :: "'r sodium \<Rightarrow> 'p JSON \<Rightarrow> protected_header \<Rightarrow> string" where
  "protected_of S J h = b64url S (Str (stringify_header J h)) True"

definition envelope_of :: "'r sodium \<Rightarrow> bytes \<Rightarrow> bytes \<Rightarrow> string \<Rightarrow> bytes \<Rightarrow> envelope" where
  "envelope_of S ct n p tg =
     \<lparr>ciphertext = b64url S (Buf ct) True, iv = b64url S (Buf n) True,
      protected = p, tag = b64url S (Buf tg) True\<rparr>"

section \<open>The base-58 codec is invertible\<close>

declare carry_digits.simps [simp del]

lemma carry_digits_0 [simp]: "carry_digits B 0 = []"
  by (simp add: carry_digits.simps)

lemma carry_digits_pos: "2 \<le> B \<Longrightarrow> 0 < c \<Longrightarrow> carry_digits B c = (c mod B) # carry_digits B (c div B)"
  by (subst carry_digits.simps) simp

lemma lval_carry_digits: "2 \<le> B \<Longrightarrow> lval B (carry_digits B c) = c"
proof (induction c rule: less_induct)
  case (less c)
  show ?case
  proof (cases "c = 0")
    case True then show ?thesis by simp
  next
    case False
    with less.prems have "c div B < c" by simp
    with less False show ?thesis by (simp add: carry_digits_pos)
  qed
qed

lemma carry_digits_split:
  "2 \<le> B \<Longrightarrow> k = 0 \<or> B ^ (k - 1) \<le> c \<Longrightarrow>
   carry_digits B c = low_digits B k c @ carry_digits B (c div B ^ k)"
proof (induction k arbitrary: c)
  case 0 then show ?case by simp
next
  case (Suc k)
  from Suc.prems have pos: "0 < c" by (cases "c = 0") auto
  have "k = 0 \<or> B ^ (k - 1) \<le> c div B"
  proof (cases k)
    case 0 then show ?thesis by simp
  next
    case (Suc j)
    with Suc.prems have "B * B ^ j \<le> c" by simp
    then have "B ^ j \<le> c div B" using Suc.prems(1)
      by (metis div_le_mono nonzero_mult_div_cancel_left not_numeral_le_zero)
    with Suc show ?thesis by simp
  qed
  from Suc.IH [OF Suc.prems(1) this] show ?case
    using Suc.prems(1) pos by (simp add: carry_digits_pos div_mult2_eq)
qed

lemma add_carry_char:
  "2 \<le> B \<Longrightarrow> add_carry B c ds =
     low_digits B (length ds) (lval B ds + c) @ carry_digits B ((lval B ds + c) div B ^ length ds)"
proof (induction ds arbitrary: c)
  case Nil then show ?case by simp
next
  case (Cons d ds)
  have "(d + B * lval B ds + c) div B = lval B ds + (d + c) div B"
    using Cons.prems by (simp add: add.assoc add.left_commute [of d] )
  moreover have "(d + B * lval B ds + c) mod B = (d + c) mod B"
    by (simp add: add.assoc add.left_commute [of d])
  ultimately show ?case using Cons.IH [OF Cons.prems, of "(d + c) div B"]
    by (simp add: div_mult2_eq add.commute)
qed

lemma carry_digits_unique:
  "2 \<le> B \<Longrightarrow> \<forall>d\<in>set ds. d < B \<Longrightarrow> ds \<noteq> [] \<Longrightarrow> last ds \<noteq> 0 \<Longrightarrow> carry_digits B (lval B ds) = ds"
proof (induction ds)
  case Nil then show ?case by simp
next
  case (Cons d ds)
  show ?case
  proof (cases "ds = []")
    case True
    with Cons.prems show ?thesis by (simp add: carry_digits_pos)
  next
    case False
    with Cons have IH: "carry_digits B (lval B ds) = ds" by simp
    have "lval B ds \<noteq> 0" using IH False by (metis carry_digits_0)
    then have "0 < d + B * lval B ds" using Cons.prems(1) by simp
    then show ?thesis using Cons.prems IH by (simp add: carry_digits_pos)
  qed
qed

lemma carry_digits_length_bound:
  "2 \<le> B \<Longrightarrow> 0 < c \<Longrightarrow> B ^ (length (carry_digits B c) - 1) \<le> c"
proof (induction c rule: less_induct)
  case (less c)
  show ?case
  proof (cases "c div B = 0")
    case True
    with less.prems show ?thesis by (simp add: carry_digits_pos)
  next
    case False
    then have pos: "0 < c div B" by simp
    have lt: "c div B < c" using less.prems by simp
    from less.IH [OF lt less.prems(1) pos]
    have "B ^ (length (carry_digits B (c div B)) - 1) \<le> c div B" .
    then have "B * B ^ (length (carry_digits B (c div B)) - 1) \<le> B * (c div B)" by simp
    also have "\<dots> \<le> c" by simp
    finally have "B ^ Suc (length (carry_digits B (c div B)) - 1) \<le> c" by simp
    moreover have "carry_digits B (c div B) \<noteq> []" using pos less.prems(1) by (simp add: carry_digits_pos)
    ultimately show ?thesis using less.prems by (simp add: carry_digits_pos)
  qed
qed

lemma lval_map_mult: "lval B (map (\<lambda>e. e * m) ds) = m * lval B ds"
  by (induction ds) (simp_all add: algebra_simps)

lemma absorb_canon:
  assumes B: "2 \<le> B" and m: "1 \<le> m"
  shows "absorb m B (canon B v) x = canon B (v * m + x)"
proof (cases "v = 0")
  case True
  then show ?thesis using B by (simp add: canon_def carry_digits_pos)
next
  case False
  then have pos: "0 < v" by simp
  obtain d ds where cd: "carry_digits B v = d # ds"
    using B pos by (simp add: carry_digits_pos)
  let ?w = "v * m + x"
  have v: "lval B (d # ds) = v" using lval_carry_digits [OF B, of v] cd by simp
  have "lval B ((d * m + x) # map (\<lambda>e. e * m) ds) = lval B (d # ds) * m + x"
    by (simp add: lval_map_mult algebra_simps)
  then have w: "lval B ((d * m + x) # map (\<lambda>e. e * m) ds) = ?w"
    by (simp only: v)
  have len: "length ((d * m + x) # map (\<lambda>e. e * m) ds) = length (d # ds)" by simp
  have "B ^ (length (d # ds) - 1) \<le> v" using carry_digits_length_bound [OF B pos] cd by simp
  also have "v \<le> ?w" using m by (metis le_add1 mult.right_neutral mult_le_mono2 order_trans)
  finally have bound: "B ^ (length (d # ds) - 1) \<le> ?w" .
  have "absorb m B (canon B v) x = add_carry B 0 ((d * m + x) # map (\<lambda>e. e * m) ds)"
    using False cd by (simp add: canon_def)
  also have "\<dots> = low_digits B (length (d # ds)) ?w @ carry_digits B (?w div B ^ length (d # ds))"
    by (simp only: add_carry_char [OF B] w len add_0_right)
  also have "\<dots> = carry_digits B ?w"
    using carry_digits_split [OF B, of "length (d # ds)" ?w] bound by simp
  also have "\<dots> = canon B ?w" using pos m by (simp add: canon_def)
  finally show ?thesis .
qed

lemma foldl_absorb:
  "2 \<le> B \<Longrightarrow> 1 \<le> m \<Longrightarrow>
   foldl (absorb m B) (canon B v) xs = canon B (foldl (\<lambda>v x. v * m + x) v xs)"
  by (induction xs arbitrary: v) (simp_all add: absorb_canon)

lemma foldl_absorb_0:
  "2 \<le> B \<Longrightarrow> 1 \<le> m \<Longrightarrow> foldl (absorb m B) [0] xs = canon B (be_val m xs)"
  using foldl_absorb [of B m 0 xs] by (simp add: canon_def be_val_def)

lemma distinct_ALPHABET: "distinct ALPHABET"
  by (simp add: ALPHABET_def)

lemma length_ALPHABET: "length ALPHABET = 58"
  by (simp add: ALPHABET_def)

lemma index_distinct:
  "distinct xs \<Longrightarrow> i < length xs \<Longrightarrow> length (takeWhile (\<lambda>a. a \<noteq> xs ! i) xs) = i"
proof (induction xs arbitrary: i)
  case Nil then show ?case by simp
next
  case (Cons x xs)
  then show ?case by (cases i) auto
qed

lemma char_index_nth:
  "distinct a \<Longrightarrow> d < length a \<Longrightarrow> char_index a (a ! d) = Some d"
  using index_distinct [of a d] by (simp add: char_index_def)

lemma ALPHABET_MAP_nth: "d < 58 \<Longrightarrow> ALPHABET_MAP (ALPHABET ! d) = Some d"
  using char_index_nth [OF distinct_ALPHABET, of d]
  by (simp add: ALPHABET_MAP_def length_ALPHABET)

lemma ALPHABET_nth_one: "d < 58 \<Longrightarrow> (ALPHABET ! d = CHR ''1'') = (d = 0)"
proof -
  assume d: "d < 58"
  have "ALPHABET ! 0 = CHR ''1''" by (simp add: ALPHABET_def)
  then show ?thesis
    using nth_eq_iff_index_eq [OF distinct_ALPHABET, of d 0] d by (simp add: length_ALPHABET)
qed

lemma carry_digits_bound: "2 \<le> B \<Longrightarrow> d \<in> set (carry_digits B c) \<Longrightarrow> d < B"
proof (induction c rule: less_induct)
  case (less c)
  show ?case
  proof (cases "c = 0")
    case True with less.prems show ?thesis by simp
  next
    case False
    then have "c div B < c" using less.prems(1) by simp
    with less False show ?thesis by (auto simp: carry_digits_pos)
  qed
qed

lemma carry_digits_last: "2 \<le> B \<Longrightarrow> 0 < c \<Longrightarrow> last (carry_digits B c) \<noteq> 0"
proof (induction c rule: less_induct)
  case (less c)
  show ?case
  proof (cases "c div B = 0")
    case True
    then have "c < B" using less.prems by (simp add: div_eq_0_iff)
    then have "c mod B = c" by simp
    with True less.prems show ?thesis by (simp add: carry_digits_pos)
  next
    case False
    then have pos: "0 < c div B" by simp
    have "c div B < c" using less.prems by simp
    from less.IH [OF this less.prems(1) pos] pos less.prems
    show ?thesis by (simp add: carry_digits_pos)
  qed
qed

lemma canon_bound: "2 \<le> B \<Longrightarrow> d \<in> set (canon B v) \<Longrightarrow> d < B"
  by (auto simp: canon_def dest: carry_digits_bound split: if_splits)

lemma canon_nonempty: "2 \<le> B \<Longrightarrow> canon B v \<noteq> []"
  by (simp add: canon_def carry_digits_pos)

lemma lval_canon: "2 \<le> B \<Longrightarrow> lval B (canon B v) = v"
  by (simp add: canon_def lval_carry_digits)

lemma decode_loop_map:
  "\<forall>d\<in>set ds. d < 58 \<Longrightarrow>
   decode_loop bs (map (\<lambda>d. ALPHABET ! d) ds) = Inr (foldl (absorb 58 256) bs ds)"
  by (induction ds arbitrary: bs) (simp_all add: ALPHABET_MAP_nth)

lemma be_val_snoc: "be_val m (xs @ [x]) = be_val m xs * m + x"
  by (simp add: be_val_def)

lemma be_val_rev: "be_val B (rev ds) = lval B ds"
  by (induction ds) (simp_all add: be_val_snoc, simp add: be_val_def)

lemma foldl_zeros: "foldl (\<lambda>v x. v * m + x) 0 (replicate n 0) = (0::nat)"
  by (induction n) simp_all

lemma be_val_zeros: "be_val m (replicate n 0 @ xs) = be_val m xs"
  by (simp add: be_val_def foldl_zeros)

lemma leading_map:
  "\<forall>d\<in>set ds. (f d = f z) = (d = z) \<Longrightarrow> leading (f z) (map f ds) = leading z ds"
proof -
  assume a: "\<forall>d\<in>set ds. (f d = f z) = (d = z)"
  have b: "\<forall>d\<in>set (butlast ds). (f d = f z) = (d = z)" using a by (meson in_set_butlastD)
  have "takeWhile ((\<lambda>b. b = f z) \<circ> f) (butlast ds) = takeWhile (\<lambda>b. b = z) (butlast ds)"
    by (rule takeWhile_cong) (use b in auto)
  then show ?thesis by (simp add: leading_def map_butlast [symmetric] takeWhile_map)
qed

lemma takeWhile_replicate_append:
  "takeWhile (\<lambda>b. b = z) (replicate n z @ ys) = replicate n z @ takeWhile (\<lambda>b. b = z) ys"
  by (induction n) simp_all

lemma leading_zeros_cons: "x \<noteq> z \<Longrightarrow> leading z (replicate n z @ x # xs) = n"
proof -
  assume x: "x \<noteq> z"
  have "butlast (replicate n z @ x # xs) = replicate n z @ butlast (x # xs)"
    by (simp add: butlast_append)
  moreover have "takeWhile (\<lambda>b. b = z) (replicate n z @ butlast (x # xs)) = replicate n z"
    using x by (simp add: takeWhile_replicate_append)
  ultimately show ?thesis by (simp add: leading_def)
qed

lemma leading_all: "leading z (replicate (Suc n) z) = n"
proof -
  have "replicate (Suc n) z = replicate n z @ [z]" by (simp add: replicate_append_same)
  then have "butlast (replicate (Suc n) z) = replicate n z" by (simp only: butlast_snoc)
  moreover have "takeWhile (\<lambda>b. b = z) (replicate n z) = replicate n z"
    by (simp add: takeWhile_eq_all_conv)
  ultimately show ?thesis by (simp add: leading_def)
qed

lemma encode_form:
  "buffer \<noteq> [] \<Longrightarrow>
   Base58_encode buffer =
     map (\<lambda>digit. ALPHABET ! digit) (replicate (leading 0 buffer) 0 @ rev (canon 58 (be_val 256 buffer)))"
  by (simp add: Base58_encode_def foldl_absorb_0)

lemma decode_digits:
  assumes ds: "\<forall>d\<in>set ds. d < 58" and ne: "ds \<noteq> []"
  shows "Base58_decode (map (\<lambda>d. ALPHABET ! d) ds) =
           Inr (map of_nat (replicate (leading 0 ds) 0 @ rev (canon 256 (be_val 58 ds))))"
proof -
  have "leading (ALPHABET ! 0) (map (\<lambda>d. ALPHABET ! d) ds) = leading 0 ds"
    by (rule leading_map) (use ds ALPHABET_nth_one in \<open>auto simp: ALPHABET_def\<close>)
  moreover have "ALPHABET ! 0 = CHR ''1''" by (simp add: ALPHABET_def)
  ultimately have "leading (CHR ''1'') (map (\<lambda>d. ALPHABET ! d) ds) = leading 0 ds" by simp
  then show ?thesis using ne
    by (simp add: Base58_decode_def bindE_def decode_loop_map [OF ds] foldl_absorb_0)
qed

lemma decode_encode_form:
  assumes ne: "buffer \<noteq> []"
  shows "Base58_decode (Base58_encode buffer) =
     Inr (map of_nat
       (replicate (leading 0 (replicate (leading 0 buffer) 0 @ rev (canon 58 (be_val 256 buffer)))) 0
        @ rev (canon 256 (be_val 256 buffer))))"
proof -
  let ?ds = "replicate (leading 0 buffer) 0 @ rev (canon 58 (be_val 256 buffer))"
  have bound: "\<forall>d\<in>set ?ds. d < 58" by (auto dest: canon_bound [rotated])
  have nonempty: "?ds \<noteq> []" by (simp add: canon_nonempty)
  have "be_val 58 ?ds = be_val 256 buffer" by (simp add: be_val_zeros be_val_rev lval_canon)
  then show ?thesis using decode_digits [OF bound nonempty] by (simp add: encode_form [OF ne])
qed

lemma decode_encode_zeros_tail:
  assumes tail: "tail = x # xs" "x \<noteq> 0"
    and bs: "bs = y # ys" "y \<noteq> 0" "\<forall>b\<in>set bs. b < 256"
    and val: "be_val 256 bs = be_val 256 tail"
  shows "Base58_decode (Base58_encode (replicate n 0 @ tail)) = Inr (map of_nat (replicate n 0 @ bs))"
proof -
  let ?V = "be_val 256 (replicate n 0 @ tail)"
  have "be_val 256 bs = lval 256 (rev bs)" using be_val_rev [of 256 "rev bs"] by simp
  then have V: "?V = lval 256 (rev bs)" by (simp add: be_val_zeros val [symmetric])
  have cd: "carry_digits 256 (lval 256 (rev bs)) = rev bs"
    by (rule carry_digits_unique) (use bs in auto)
  have pos: "0 < ?V" using cd bs(1) V by (cases "?V = 0") auto
  have c256: "canon 256 ?V = rev bs" using pos cd V by (simp add: canon_def)
  have c58: "canon 58 ?V = carry_digits 58 ?V" using pos by (simp add: canon_def)
  have "carry_digits 58 ?V \<noteq> []" using pos by (simp add: carry_digits_pos)
  then obtain h t where ht: "rev (carry_digits 58 ?V) = h # t" "h = last (carry_digits 58 ?V)"
    by (cases "carry_digits 58 ?V" rule: rev_cases) simp_all
  have h: "h \<noteq> 0" using carry_digits_last [of 58 ?V] pos ht(2) by simp
  have l1: "leading 0 (replicate n 0 @ tail) = n"
    unfolding tail(1) by (rule leading_zeros_cons) (rule tail(2))
  have l2: "leading 0 (replicate n 0 @ rev (carry_digits 58 ?V)) = n"
    unfolding ht(1) by (rule leading_zeros_cons) (rule h)
  have ne: "replicate n 0 @ tail \<noteq> []" using tail by simp
  show ?thesis
    by (simp only: decode_encode_form [OF ne] l1 c58 l2 c256 rev_rev_ident)
qed

lemma decode_encode_all_zeros:
  "Base58_decode (Base58_encode (replicate (Suc n) 0)) = Inr (map of_nat (replicate (Suc n) 0))"
proof -
  have V: "be_val 256 (replicate (Suc n) 0) = 0"
    using be_val_zeros [of 256 "Suc n" "[]"] by (simp add: be_val_def)
  have ne: "replicate (Suc n) (0::nat) \<noteq> []" by simp
  have "replicate (leading 0 (replicate (Suc n) (0::nat))) 0 @ rev (canon 58 0) = replicate (Suc n) (0::nat)"
    by (simp only: leading_all) (simp add: canon_def replicate_append_same)
  then show ?thesis
    by (simp only: decode_encode_form [OF ne] V leading_all) (simp add: canon_def replicate_append_same)
qed

lemma Base58_roundtrip:
  assumes "\<forall>b\<in>set buffer. b < 256"
  shows "Base58_decode (Base58_encode buffer) = Inr (map of_nat buffer)"
proof -
  define n where "n = length (takeWhile (\<lambda>b. b = 0) buffer)"
  have "takeWhile (\<lambda>b. b = 0) buffer = replicate n 0"
    unfolding n_def by (rule replicate_length_same [symmetric]) (auto dest: set_takeWhileD)
  then have split: "buffer = replicate n 0 @ dropWhile (\<lambda>b. b = 0) buffer"
    using takeWhile_dropWhile_id [of "\<lambda>b. b = 0" buffer] by simp
  show ?thesis
  proof (cases "dropWhile (\<lambda>b. b = 0) buffer")
    case Nil
    with split have all: "buffer = replicate n 0" by simp
    show ?thesis
    proof (cases n)
      case 0
      with all have "buffer = []" by simp
      then show ?thesis by (simp add: Base58_encode_def Base58_decode_def)
    next
      case (Suc k)
      with all have "buffer = replicate (Suc k) 0" by simp
      then show ?thesis using decode_encode_all_zeros [of k] by simp
    qed
  next
    case (Cons x xs)
    then have x: "x \<noteq> 0" using hd_dropWhile [of "\<lambda>b. b = 0" buffer] by simp
    have bound: "\<forall>b\<in>set (x # xs). b < 256"
    proof
      fix b assume "b \<in> set (x # xs)"
      then have "b \<in> set (dropWhile (\<lambda>b. b = 0) buffer)" using Cons by simp
      then have "b \<in> set buffer" by (rule set_dropWhileD)
      with assms show "b < 256" by simp
    qed
    from split Cons have eq: "buffer = replicate n 0 @ x # xs" by simp
    show ?thesis
      unfolding eq by (rule decode_encode_zeros_tail [OF refl x refl x bound refl])
  qed
qed

lemma foldl_horner:
  "foldl (\<lambda>v x. v * m + x) v xs = v * m ^ length xs + foldl (\<lambda>v x. v * m + x) (0::nat) xs"
proof (induction xs arbitrary: v)
  case Nil then show ?case by simp
next
  case (Cons x xs)
  have "foldl (\<lambda>v x. v * m + x) v (x # xs) =
          (v * m + x) * m ^ length xs + foldl (\<lambda>v x. v * m + x) 0 xs"
    using Cons.IH [of "v * m + x"] by simp
  moreover have "foldl (\<lambda>v x. v * m + x) 0 (x # xs) =
          x * m ^ length xs + foldl (\<lambda>v x. v * m + x) 0 xs"
    using Cons.IH [of x] by simp
  ultimately show ?case by (simp add: algebra_simps)
qed

lemma be_val_Cons: "be_val m (x # xs) = x * m ^ length xs + be_val m xs"
  using foldl_horner [of m x xs] by (simp add: be_val_def)

lemma be_val_bound: "\<forall>b\<in>set xs. b < m \<Longrightarrow> be_val m xs < m ^ length xs"
proof (induction xs rule: rev_induct)
  case Nil then show ?case by (simp add: be_val_def)
next
  case (snoc x xs)
  then have "be_val m xs < m ^ length xs" and x: "x < m" by simp_all
  then have "Suc (be_val m xs) \<le> m ^ length xs" by simp
  then have "Suc (be_val m xs) * m \<le> m ^ length xs * m" by (rule mult_le_mono1)
  then have "be_val m xs * m + m \<le> m * m ^ length xs" by (simp add: mult.commute)
  with x show ?case by (simp add: be_val_snoc)
qed

lemma unat_bytes_bound: "\<forall>b\<in>set (map unat (bs :: bytes)). b < 256"
proof
  fix b assume "b \<in> set (map unat bs)"
  then obtain w :: byte where "b = unat w" by auto
  then show "b < 256" using unsigned_less [of w] by simp
qed

lemma Base58_roundtrip_bytes: "Base58_decode (Base58_encode (map unat bs)) = Inr (bs :: bytes)"
  using Base58_roundtrip [OF unat_bytes_bound, of bs] by (simp add: comp_def)

lemma key_value_range:
  assumes "length (k :: bytes) = 32"
  shows "18023 * 58 ^ 44 \<le> be_val 256 (code # map unat k)"
    and "be_val 256 (code # map unat k) < 18024 * 58 ^ 44"
proof -
  have "be_val 256 (map unat k) < 256 ^ length (map unat k)"
    by (rule be_val_bound) (rule unat_bytes_bound)
  then have v: "be_val 256 (map unat k) < 256 ^ 32" using assms by simp
  have V: "be_val 256 (code # map unat k) = 60673 * 256 ^ 32 + be_val 256 (map unat k)"
    using assms by (simp add: be_val_Cons code_def)
  show "18023 * 58 ^ 44 \<le> be_val 256 (code # map unat k)"
    unfolding V by simp
  show "be_val 256 (code # map unat k) < 18024 * 58 ^ 44"
    unfolding V using v by simp
qed

lemma carry_digits_18023: "carry_digits 58 18023 = [43, 20, 5]"
  by (simp add: carry_digits_pos)

lemma encode_key_prefix:
  assumes "length (k :: bytes) = 32"
  shows "\<exists>rest. Base58_encode (code # map unat k) = ''6Mk'' @ rest"
proof -
  let ?V = "be_val 256 (code # map unat k)"
  note range = key_value_range [OF assms]
  have q: "?V div 58 ^ 44 = 18023"
    by (rule div_nat_eqI) (use range in \<open>simp_all add: mult.commute\<close>)
  have "(58::nat) ^ 43 \<le> 18023 * 58 ^ 44" by simp
  with range(1) have low: "(58::nat) ^ (44 - 1) \<le> ?V" by simp
  then have pos: "0 < ?V" by (cases "?V = 0") simp_all
  have "canon 58 ?V = carry_digits 58 ?V" using pos by (simp add: canon_def)
  also have "\<dots> = low_digits 58 44 ?V @ carry_digits 58 (?V div 58 ^ 44)"
    by (rule carry_digits_split) (use low in simp_all)
  also have "\<dots> = low_digits 58 44 ?V @ [43, 20, 5]"
    by (simp only: q carry_digits_18023)
  finally have cd: "rev (canon 58 ?V) = [5, 20, 43] @ rev (low_digits 58 44 ?V)" by simp
  have lead: "leading 0 (code # map unat k) = 0"
    using leading_zeros_cons [of code 0 0 "map unat k"] by (simp add: code_def)
  have "Base58_encode (code # map unat k) =
          map (\<lambda>digit. ALPHABET ! digit) ([5, 20, 43] @ rev (low_digits 58 44 ?V))"
    by (simp only: encode_form [OF list.distinct(2)] lead cd replicate_0 append_Nil)
  also have "\<dots> = ''6Mk'' @ map (\<lambda>digit. ALPHABET ! digit) (rev (low_digits 58 44 ?V))"
    by (simp add: ALPHABET_def)
  finally show ?thesis by blast
qed

lemma decode_encode_key:
  "Base58_decode (Base58_encode (code # map unat k)) = Inr (0xed # 0x01 # (k :: bytes))"
proof -
  have bound: "\<forall>b\<in>set (237 # 1 # map unat k). b < 256"
    using unat_bytes_bound [of k] by simp
  have val: "be_val 256 (237 # 1 # map unat k) = be_val 256 (code # map unat k)"
    by (simp add: be_val_Cons code_def)
  have c: "code \<noteq> 0" by (simp add: code_def)
  have "Base58_decode (Base58_encode (replicate 0 0 @ code # map unat k)) =
          Inr (map of_nat (replicate 0 0 @ 237 # 1 # map unat k))"
    by (rule decode_encode_zeros_tail [OF refl c refl _ bound val]) simp
  then show ?thesis by (simp add: comp_def)
qed

lemma encode_code_two_bytes:
  "Base58_encode (code # map unat (k :: bytes)) = Base58_encode (0xed # 0x01 # map unat k)"
proof -
  have val: "be_val 256 (237 # 1 # map unat k) = be_val 256 (code # map unat k)"
    by (simp add: be_val_Cons code_def)
  have l1: "leading 0 (code # map unat k) = 0"
    using leading_zeros_cons [of code 0 0 "map unat k"] by (simp add: code_def)
  have l2: "leading 0 (237 # 1 # map unat k) = 0"
    using leading_zeros_cons [of 237 0 0 "1 # map unat k"] by simp
  show ?thesis
    by (simp only: encode_form [OF list.distinct(2)] l1 l2 val)
qed

lemma ed25519_decode_encode:
  assumes "length k = 32"
  shows "ed25519_decode (ed25519_encode k) = Inr k"
proof -
  obtain rest where enc: "Base58_encode (code # map unat k) = ''6Mk'' @ rest"
    using encode_key_prefix [OF assms] by blast
  have "startsWith (ed25519_encode k) ''did:key:z6Mk''"
    by (simp add: ed25519_encode_def enc startsWith_def)
  moreover have "slice_from (length ''did:key:z'') (ed25519_encode k) = Base58_encode (code # map unat k)"
    by (simp add: ed25519_encode_def slice_from_def)
  ultimately show ?thesis
    by (simp add: ed25519_decode_def decode_encode_key bindE_def slice_from_def)
qed

section \<open>Base64 is invertible, with or without padding\<close>

lemma b64_g1: fixes a b :: nat assumes "b < 256" shows "a div 4 * 4 + (a mod 4 * 16 + b div 16) div 16 = a"
proof -
  have "b div 16 < 16" using assms by simp
  then have "(a mod 4 * 16 + b div 16) div 16 = a mod 4" by simp
  then show ?thesis by simp
qed
lemma b64_g2: fixes a b c :: nat assumes "b < 256" "c < 256" shows "(a mod 4 * 16 + b div 16) mod 16 * 16 + (b mod 16 * 4 + c div 64) div 4 = b"
proof -
  have b: "b div 16 < 16" using assms by simp
  have c: "c div 64 < 4" using assms by simp
  have "(a mod 4 * 16 + b div 16) mod 16 = b div 16" using b by simp
  moreover have "(b mod 16 * 4 + c div 64) div 4 = b mod 16" using c by simp
  ultimately show ?thesis by simp
qed
lemma b64_g3: fixes b c :: nat assumes "c < 256" shows "(b mod 16 * 4 + c div 64) mod 4 * 64 + c mod 64 = c"
proof -
  have c: "c div 64 < 4" using assms by simp
  have "(b mod 16 * 4 + c div 64) mod 4 = c div 64" using c by simp
  then show ?thesis by simp
qed
lemma b64_g4: fixes a b :: nat assumes "b < 256" shows "(a mod 4 * 16 + b div 16) mod 16 * 16 + (b mod 16 * 4) div 4 = b"
proof -
  have b: "b div 16 < 16" using assms by simp
  have "(a mod 4 * 16 + b div 16) mod 16 = b div 16" using b by simp
  then show ?thesis by simp
qed
lemma b64_g5: fixes a :: nat shows "a div 4 * 4 + (a mod 4 * 16) div 16 = a" by simp
lemma b64_bnd: fixes a b c :: nat assumes "a < 256" "b < 256" "c < 256"
  shows "a div 4 < 64" "a mod 4 * 16 + b div 16 < 64" "b mod 16 * 4 + c div 64 < 64" "c mod 64 < 64" "b mod 16 * 4 < 64" "a mod 4 * 16 < 64"
proof -
  show "a div 4 < 64" using assms by simp
  have "a mod 4 < 4" "b div 16 < 16" "b mod 16 < 16" "c div 64 < 4" using assms by simp_all
  then show "a mod 4 * 16 + b div 16 < 64" "b mod 16 * 4 + c div 64 < 64" "b mod 16 * 4 < 64" "a mod 4 * 16 < 64" by linarith+
  show "c mod 64 < 64" by simp
qed

lemma b64_bytes_digits:
  "\<forall>b\<in>set xs. b < 256 \<Longrightarrow> b64_bytes (b64_digits xs) = Some xs"
proof (induction xs rule: b64_digits.induct)
  case (1 a b c rest)
  then have IH: "b64_bytes (b64_digits rest) = Some rest" and bc: "b < 256" "c < 256" by simp_all
  show ?case
    by (simp only: b64_digits.simps append_Cons append_Nil b64_bytes.simps IH option.map
          b64_g1 [OF bc(1)] b64_g2 [OF bc] b64_g3 [OF bc(2)])
next
  case (2 a b)
  then have b: "b < 256" by simp
  have z: "(b mod 16 * 4) mod 4 = 0" by simp
  show ?case
    by (simp only: b64_digits.simps b64_bytes.simps z b64_g1 [OF b] b64_g4 [OF b]) simp
next
  case (3 a)
  have z: "(a mod 4 * 16) mod 16 = 0" by simp
  show ?case
    by (simp only: b64_digits.simps b64_bytes.simps z b64_g5) simp
next
  case 4
  show ?case by simp
qed

lemma b64_digits_bound:
  "\<forall>b\<in>set xs. b < 256 \<Longrightarrow> d \<in> set (b64_digits xs) \<Longrightarrow> d < 64"
proof (induction xs rule: b64_digits.induct)
  case (1 a b c rest)
  then have abc: "a < 256" "b < 256" "c < 256" by simp_all
  from "1.prems" "1.IH" b64_bnd [OF abc] show ?case by auto
next
  case (2 a b)
  then have ab: "a < 256" "b < 256" by simp_all
  from "2.prems" b64_bnd [OF ab ab(2)] show ?case by auto
next
  case (3 a)
  then have a: "a < 256" by simp
  from "3.prems" b64_bnd [OF a a a] show ?case by auto
next
  case 4
  then show ?case by simp
qed

lemma b64_digits_Nil_iff: "b64_digits xs = [] \<longleftrightarrow> xs = []"
  by (induction xs rule: b64_digits.induct) simp_all

lemma distinct_B64: "distinct B64_URLSAFE"
  by (simp add: B64_URLSAFE_def)

lemma length_B64: "length B64_URLSAFE = 64"
  by (simp add: B64_URLSAFE_def)

lemma pad_not_B64: "CHR ''='' \<notin> set B64_URLSAFE"
  by (simp add: B64_URLSAFE_def)

lemma b64_text_index:
  assumes "\<forall>d\<in>set ds. d < 64"
  shows "map (\<lambda>c. the (char_index B64_URLSAFE c)) (map (\<lambda>d. B64_URLSAFE ! d) ds) = ds"
proof -
  have "\<forall>d\<in>set ds. the (char_index B64_URLSAFE (B64_URLSAFE ! d)) = d"
    using assms char_index_nth [OF distinct_B64] by (simp add: length_B64)
  then show ?thesis by (simp add: map_idI)
qed

lemma b64_text_split:
  assumes "\<forall>d\<in>set ds. d < 64"
  shows "takeWhile (\<lambda>c. c \<in> set B64_URLSAFE) (map (\<lambda>d. B64_URLSAFE ! d) ds @ replicate n (CHR ''='')) =
           map (\<lambda>d. B64_URLSAFE ! d) ds"
    and "dropWhile (\<lambda>c. c \<in> set B64_URLSAFE) (map (\<lambda>d. B64_URLSAFE ! d) ds @ replicate n (CHR ''='')) =
           replicate n (CHR ''='')"
proof -
  have inA: "\<forall>c\<in>set (map (\<lambda>d. B64_URLSAFE ! d) ds). c \<in> set B64_URLSAFE"
    using assms by (simp add: length_B64)
  have tw: "takeWhile (\<lambda>c. c \<in> set B64_URLSAFE) (replicate n (CHR ''='')) = []"
    using pad_not_B64 by (cases n) simp_all
  have dw: "dropWhile (\<lambda>c. c \<in> set B64_URLSAFE) (replicate n (CHR ''='')) = replicate n (CHR ''='')"
    using pad_not_B64 by (cases n) simp_all
  show "takeWhile (\<lambda>c. c \<in> set B64_URLSAFE) (map (\<lambda>d. B64_URLSAFE ! d) ds @ replicate n (CHR ''='')) =
           map (\<lambda>d. B64_URLSAFE ! d) ds"
  proof -
    have "takeWhile (\<lambda>c. c \<in> set B64_URLSAFE) (map (\<lambda>d. B64_URLSAFE ! d) ds @ replicate n (CHR ''='')) =
            map (\<lambda>d. B64_URLSAFE ! d) ds @ takeWhile (\<lambda>c. c \<in> set B64_URLSAFE) (replicate n (CHR ''=''))"
      by (rule takeWhile_append2) (use inA in auto)
    then show ?thesis by (simp only: tw append_Nil2)
  qed
  show "dropWhile (\<lambda>c. c \<in> set B64_URLSAFE) (map (\<lambda>d. B64_URLSAFE ! d) ds @ replicate n (CHR ''='')) =
           replicate n (CHR ''='')"
  proof -
    have "dropWhile (\<lambda>c. c \<in> set B64_URLSAFE) (map (\<lambda>d. B64_URLSAFE ! d) ds @ replicate n (CHR ''='')) =
            dropWhile (\<lambda>c. c \<in> set B64_URLSAFE) (replicate n (CHR ''=''))"
      by (rule dropWhile_append2) (use inA in auto)
    then show ?thesis by (simp only: dw)
  qed
qed

lemma from_base64_padded:
  "from_base64 (to_base64 bs URLSAFE_NO_PADDING
                  @ replicate (b64_padding (length (to_base64 bs URLSAFE_NO_PADDING))) (CHR ''=''))
     URLSAFE = Inr bs"
proof -
  let ?ds = "b64_digits (map unat bs)"
  let ?tx = "map (\<lambda>d. B64_URLSAFE ! d) ?ds"
  have bound: "\<forall>d\<in>set ?ds. d < 64"
    using b64_digits_bound [OF unat_bytes_bound] by blast
  have enc_eq: "to_base64 bs URLSAFE_NO_PADDING = ?tx" by (simp add: to_base64_def)
  have bytes: "b64_bytes ?ds = Some (map unat bs)"
    by (rule b64_bytes_digits) (rule unat_bytes_bound)
  show ?thesis
    unfolding enc_eq from_base64_def Let_def b64_text_split [OF bound] b64_text_index [OF bound] bytes
    by (simp add: comp_def)
qed

lemma to_base64_padded:
  "to_base64 bs URLSAFE =
     to_base64 bs URLSAFE_NO_PADDING
       @ replicate (b64_padding (length (to_base64 bs URLSAFE_NO_PADDING))) (CHR ''='')"
  by (simp add: to_base64_def Let_def)

lemma from_to_base64: "from_base64 (to_base64 bs URLSAFE) URLSAFE = Inr bs"
  by (simp only: to_base64_padded from_base64_padded)

declare pad_to_4.simps [simp del]

lemma b64_padding_step:
  "n mod 4 \<noteq> 0 \<Longrightarrow> b64_padding n = Suc (b64_padding (Suc n))"
proof -
  assume a: "n mod 4 \<noteq> 0"
  have "n mod 4 < 4" by simp
  then consider "n mod 4 = 1" | "n mod 4 = 2" | "n mod 4 = 3" using a by linarith
  then show ?thesis by cases (simp_all add: b64_padding_def mod_Suc)
qed

lemma b64_padding_0: "n mod 4 = 0 \<Longrightarrow> b64_padding n = 0"
  by (simp add: b64_padding_def)

lemma pad_to_4_eq: "pad_to_4 s = s @ replicate (b64_padding (length s)) (CHR ''='')"
proof (induction s rule: pad_to_4.induct)
  case (1 input)
  show ?case
  proof (cases "length input mod 4 = 0")
    case True
    then show ?thesis by (subst pad_to_4.simps) (simp add: b64_padding_0)
  next
    case False
    have "pad_to_4 input = pad_to_4 (input @ ''='')" using False by (subst pad_to_4.simps) simp
    also have "\<dots> = (input @ ''='') @ replicate (b64_padding (length (input @ ''=''))) (CHR ''='')"
      by (rule "1.IH") (rule False)
    also have "\<dots> = input @ replicate (Suc (b64_padding (Suc (length input)))) (CHR ''='')"
      by simp
    also have "\<dots> = input @ replicate (b64_padding (length input)) (CHR ''='')"
      by (simp only: b64_padding_step [OF False])
    finally show ?thesis .
  qed
qed

lemma b64_padding_minus:
  "j \<le> b64_padding n \<Longrightarrow> j + b64_padding (n + j) = b64_padding n"
proof (induction j arbitrary: n)
  case 0 then show ?case by simp
next
  case (Suc j)
  then have "b64_padding n \<noteq> 0" by simp
  then have nz: "n mod 4 \<noteq> 0" using b64_padding_0 [of n] by (cases "n mod 4 = 0") simp_all
  from b64_padding_step [OF nz] Suc.prems have "j \<le> b64_padding (Suc n)" by simp
  from Suc.IH [OF this] b64_padding_step [OF nz] show ?case by simp
qed

lemma pad_to_4_partial:
  assumes "j \<le> b64_padding (length s)"
  shows "pad_to_4 (s @ replicate j (CHR ''='')) = s @ replicate (b64_padding (length s)) (CHR ''='')"
proof -
  have "pad_to_4 (s @ replicate j (CHR ''='')) =
          s @ replicate (j + b64_padding (length s + j)) (CHR ''='')"
    by (simp add: pad_to_4_eq replicate_add)
  then show ?thesis by (simp only: b64_padding_minus [OF assms])
qed

lemma b64dec_partial:
  assumes "j \<le> b64_padding (length (to_base64 bs URLSAFE_NO_PADDING))"
  shows "b64dec (to_base64 bs URLSAFE_NO_PADDING @ replicate j (CHR ''='')) = Inr bs"
  by (simp only: b64dec_def pad_to_4_partial [OF assms] from_base64_padded)

lemma b64dec_to_base64: "b64dec (to_base64 bs variant) = Inr bs"
proof (cases variant)
  case URLSAFE
  show ?thesis
    unfolding URLSAFE to_base64_padded by (rule b64dec_partial) simp
next
  case URLSAFE_NO_PADDING
  show ?thesis
    using b64dec_partial [of 0 bs] by (simp add: URLSAFE_NO_PADDING)
qed

lemma b64dec_b64url: "b64dec (b64url S (Buf bs) pad) = Inr bs"
  by (simp add: b64url_def any_to_Uint8Array_def b64dec_to_base64)

lemma to_base64_Nil_iff: "to_base64 bs variant = [] \<longleftrightarrow> bs = []"
  by (cases variant) (auto simp: to_base64_def Let_def b64_digits_Nil_iff b64_padding_def)

lemma b64_padding_total: "(n + b64_padding n) mod 4 = 0"
proof -
  have "n mod 4 < 4" by simp
  then consider "n mod 4 = 0" | "n mod 4 = 1" | "n mod 4 = 2" | "n mod 4 = 3" by linarith
  then have "(n mod 4 + b64_padding n) mod 4 = 0"
    by cases (simp_all add: b64_padding_def)
  then show ?thesis by (simp add: mod_add_left_eq)
qed

lemma length_to_base64_padded: "length (to_base64 bs URLSAFE) mod 4 = 0"
  using b64_padding_total [of "length (to_base64 bs URLSAFE_NO_PADDING)"]
  by (simp add: to_base64_padded)

section \<open>Text of the envelope and of the signing input\<close>

lemma B64_ascii: "c \<in> set B64_URLSAFE \<Longrightarrow> (of_char c :: nat) < 128"
  by (auto simp: B64_URLSAFE_def)

lemma to_base64_ascii: "c \<in> set (to_base64 bs variant) \<Longrightarrow> (of_char c :: nat) < 128"
proof -
  assume c: "c \<in> set (to_base64 bs variant)"
  have digits: "\<forall>d\<in>set (b64_digits (map unat bs)). d < 64"
    using b64_digits_bound [OF unat_bytes_bound] by blast
  have "c \<in> set B64_URLSAFE \<or> c = CHR ''=''"
    using c digits by (cases variant) (auto simp: to_base64_def Let_def length_B64)
  then show ?thesis using B64_ascii by auto
qed

lemma Buffer_from_ascii_only:
  "\<forall>c\<in>set s. (of_char c :: nat) < 128 \<Longrightarrow> Buffer_from s = Buffer_from_ascii s"
  by (induction s) (simp_all add: Buffer_from_def Buffer_from_ascii_def utf8_unit_def)

lemma signing_input_ascii:
  "Buffer_from (b64url S x p @ ''.'' @ b64url S y q) = Buffer_from_ascii (b64url S x p @ ''.'' @ b64url S y q)"
  by (rule Buffer_from_ascii_only) (auto simp: b64url_def dest: to_base64_ascii)

lemma b64dec_b64url_any: "b64dec (b64url S input pad) = Inr (any_to_Uint8Array S input)"
  by (simp add: b64url_def b64dec_to_base64)

lemma strB64dec_b64url:
  "utf8_laws S \<Longrightarrow> strB64dec S (b64url S (Str s) pad) = Inr s"
  by (simp add: strB64dec_def b64dec_b64url_any any_to_Uint8Array_def bindE_def utf8_laws_def)

section \<open>The instance satisfies the laws\<close>

lemma ref_utf8: "utf8_laws ref_sodium"
proof -
  have "char_of (unat (of_nat (of_char c) :: byte)) = c" for c :: char
  proof -
    have "(of_char c :: nat) < 256" by (cases c) simp
    then have "unat (of_nat (of_char c) :: byte) = of_char c"
      by (simp add: unat_of_nat)
    then show ?thesis by simp
  qed
  then show ?thesis by (simp add: utf8_laws_def ref_sodium_def comp_def map_idI)
qed

lemma takeWhile_plus: "takeWhile (\<lambda>c. c = CHR ''+'') (replicate n (CHR ''+'') @ CHR '':'' # r) = replicate n (CHR ''+'')"
  by (induction n) simp_all

lemma get_put_string: "get_string (put_string s @ r) = (s, r)"
  by (simp add: get_string_def put_string_def takeWhile_plus Let_def)

lemma get_put_option: "get_option (put_option v @ r) = (v, r)"
  by (cases v) (simp_all add: get_option_def put_option_def get_put_string)

lemma get_put_recipient: "get_recipient (put_recipient x @ r) = (x, r)"
proof (cases "header x")
  case None
  then show ?thesis
    by (simp add: get_recipient_def put_recipient_def get_put_option)
next
  case (Some h)
  then show ?thesis
    by (simp add: get_recipient_def put_recipient_def get_put_option get_put_string)
qed

lemma get_put_field: "get_field (put_field kv @ r) = (kv, r)"
  by (simp add: get_field_def put_field_def get_put_string)

lemma get_many_put:
  assumes "\<And>v r. get (put v @ r) = (v, r)"
  shows "get_many get (length xs) (concat (map put xs) @ r) = (xs, r)"
  by (induction xs) (simp_all add: assms)

lemma get_put_list:
  assumes "\<And>v r. get (put v @ r) = (v, r)"
  shows "get_list get (put_list put xs @ r) = (xs, r)"
  by (simp add: get_list_def put_list_def takeWhile_plus Let_def get_many_put [OF assms])

lemma ref_json: "json_laws ref_JSON"
proof -
  have s0: "get_string (put_string s) = (s, [])" for s
    using get_put_string [of s "[]"] by simp
  have l0: "get_list get_field (put_list put_field v) = (v, [])" for v
    using get_put_list [of get_field put_field v "[]", OF get_put_field] by simp
  show ?thesis
    by (simp add: json_laws_def ref_JSON_def get_put_string s0 l0
          get_put_list [OF get_put_recipient])
qed

lemma ref_random_length: "length (fst (ref_random n g)) = n"
  by (simp add: ref_random_def)

lemma ref_public_length: "length (ref_public sk) = length sk"
  by (simp add: ref_public_def)

lemma ref_keypair_of:
  assumes "keypair_of ref_sodium kp"
  obtains seed where "length seed = 32" "publicKey kp = ref_public seed"
    "privateKey kp = seed @ ref_public seed"
proof -
  from assms obtain g where "kp = fst (ref_keypair g)"
    by (auto simp: keypair_of_def ref_sodium_def)
  then have "length (fst (ref_random 32 g)) = 32"
    "publicKey kp = ref_public (fst (ref_random 32 g))"
    "privateKey kp = fst (ref_random 32 g) @ ref_public (fst (ref_random 32 g))"
    by (simp_all add: ref_keypair_def ref_random_length split_def Let_def)
  then show ?thesis by (rule that)
qed

lemma ref_curve_keys:
  assumes "length seed = 32" "publicKey kp = ref_public seed" "privateKey kp = seed @ ref_public seed"
  shows "curve_keys ref_sodium kp pk sk \<longleftrightarrow> pk = ref_public seed \<and> sk = seed"
  using assms by (auto simp: curve_keys_def ref_sodium_def ref_public_length)

lemma ref_key: "key_laws ref_sodium"
  unfolding key_laws_def
proof (intro allI impI)
  fix kp assume "keypair_of ref_sodium kp"
  then obtain seed where s: "length seed = 32" "publicKey kp = ref_public seed"
    "privateKey kp = seed @ ref_public seed" by (rule ref_keypair_of)
  have "curve_keys ref_sodium kp (ref_public seed) seed"
    by (simp add: ref_curve_keys [OF s])
  then show "length (publicKey kp) = 32 \<and> (\<exists>pk sk. curve_keys ref_sodium kp pk sk)"
    using s by (auto simp: ref_public_length)
qed

lemma ref_seal_correct:
  assumes "length seed = 32"
  shows "\<exists>c g'. ref_seal m (ref_public seed) g = Inr (c, g') \<and> c \<noteq> [] \<and>
                 ref_seal_open c (ref_public seed) seed = Inr m"
  using assms
  by (simp add: ref_seal_def ref_seal_open_def ref_public_length ref_random_def split_def Let_def)

lemma ref_box_correct:
  assumes "length seedA = 32" "length seedB = 32"
  shows "\<exists>c. ref_box m n (ref_public seedB) seedA = Inr c \<and>
              ref_box_open c n (ref_public seedA) seedB = Inr m"
  using assms by (simp add: ref_box_def ref_box_open_def ref_public_length)

lemma ref_box_laws: "box_laws ref_sodium"
  unfolding box_laws_def
proof (intro conjI allI impI)
  show "0 < crypto_box_NONCEBYTES ref_sodium" by (simp add: ref_sodium_def)
next
  fix n g show "length (fst (randombytes_buf ref_sodium n g)) = n"
    by (simp add: ref_sodium_def ref_random_length)
next
  fix kp pk sk m g
  assume a: "keypair_of ref_sodium kp \<and> curve_keys ref_sodium kp pk sk"
  then obtain seed where s: "length seed = 32" "publicKey kp = ref_public seed"
    "privateKey kp = seed @ ref_public seed" by (blast elim: ref_keypair_of)
  from a have "pk = ref_public seed" "sk = seed" by (simp_all add: ref_curve_keys [OF s])
  then show "\<exists>c g'. crypto_box_seal ref_sodium m pk g = Inr (c, g') \<and> c \<noteq> [] \<and>
                    crypto_box_seal_open ref_sodium c pk sk = Inr m"
    using ref_seal_correct [OF s(1), of m g] by (simp add: ref_sodium_def)
next
  fix kpA pkA skA kpB pkB skB m and n :: bytes
  assume a: "keypair_of ref_sodium kpA \<and> curve_keys ref_sodium kpA pkA skA \<and>
             keypair_of ref_sodium kpB \<and> curve_keys ref_sodium kpB pkB skB \<and>
             length n = crypto_box_NONCEBYTES ref_sodium"
  then obtain seedA where sA: "length seedA = 32" "publicKey kpA = ref_public seedA"
    "privateKey kpA = seedA @ ref_public seedA" by (blast elim: ref_keypair_of)
  from a obtain seedB where sB: "length seedB = 32" "publicKey kpB = ref_public seedB"
    "privateKey kpB = seedB @ ref_public seedB" by (blast elim: ref_keypair_of)
  from a have "pkA = ref_public seedA" "skA = seedA" "pkB = ref_public seedB" "skB = seedB"
    by (simp_all add: ref_curve_keys [OF sA] ref_curve_keys [OF sB])
  then show "\<exists>c. crypto_box_easy ref_sodium m n pkB skA = Inr c \<and>
                 crypto_box_open_easy ref_sodium c n pkA skB = Inr m"
    using ref_box_correct [OF sA(1) sB(1), of m n] by (simp add: ref_sodium_def)
qed

lemma ref_aead: "aead_laws ref_sodium"
  by (simp add: aead_laws_def ref_sodium_def ref_aead_encrypt_def ref_aead_decrypt_def)

lemma ref_public_inj: "ref_public a = ref_public b \<Longrightarrow> a = b"
proof -
  have "inj (\<lambda>b :: byte. b + 1)" by (simp add: inj_def)
  then show "ref_public a = ref_public b \<Longrightarrow> a = b"
    by (simp add: ref_public_def inj_map_eq_map)
qed

lemma ref_sign: "sign_laws ref_sodium"
  unfolding sign_laws_def
proof (intro allI impI)
  fix kp m assume "keypair_of ref_sodium kp"
  then obtain seed where s: "length seed = 32" "publicKey kp = ref_public seed"
    "privateKey kp = seed @ ref_public seed" by (rule ref_keypair_of)
  then show "\<exists>sig. crypto_sign_detached ref_sodium m (privateKey kp) = Inr sig \<and>
                   crypto_sign_verify_detached ref_sodium sig m (publicKey kp) = Inr True"
    by (simp add: ref_sodium_def ref_public_length)
qed

section \<open>Wrapping and locating the content key\<close>

lemma bindE_Inl [simp]: "bindE (Inl e) f = Inl e"
  by (simp add: bindE_def)

lemma bindE_Inr [simp]: "bindE (Inr v) f = f v"
  by (simp add: bindE_def)

lemma truthy_b64url: "bs \<noteq> [] \<Longrightarrow> truthy (Some (b64url S (Buf bs) pad))"
  by (simp add: truthy_def b64url_def any_to_Uint8Array_def to_base64_Nil_iff)

lemma b64dec_if_None [simp]: "b64dec_if None = Inr None"
  by (simp add: b64dec_if_def truthy_def)

lemma b64dec_if_b64url:
  "bs \<noteq> [] \<Longrightarrow> b64dec_if (Some (b64url S (Buf bs) pad)) = Inr (Some bs)"
  by (simp add: b64dec_if_def truthy_b64url b64dec_b64url)

text \<open>What \<open>wrap_for\<close> returns, for a recipient and a sender that are key pairs.\<close>

lemma wrap_for_anon:
  assumes box: "box_laws S" and kp: "keypair_of S kp" and ck: "curve_keys S kp pk sk"
  shows "\<exists>c g'. crypto_box_seal S cek pk g = Inr (c, g') \<and>
           crypto_box_seal_open S c pk sk = Inr cek \<and>
           wrap_for S cek None (publicKey kp) g =
             Inr (\<lparr>encrypted_key = Some (b64url S (Buf c) True),
                   header = Some \<lparr>h_iv = None, h_kid = kid_of kp, h_sender = None\<rparr>\<rparr>, g')"
proof -
  from box kp ck obtain c g' where
    seal: "crypto_box_seal S cek pk g = Inr (c, g')" and
    opened: "crypto_box_seal_open S c pk sk = Inr cek"
    unfolding box_laws_def by blast
  from ck have pk: "crypto_sign_ed25519_pk_to_curve25519 S (publicKey kp) = Inr pk"
    by (simp add: curve_keys_def)
  show ?thesis
    using seal opened by (simp add: wrap_for_def pk kid_of_def)
qed

lemma wrap_for_auth:
  assumes box: "box_laws S" and kp: "keypair_of S kp" and ck: "curve_keys S kp pk sk"
    and kpA: "keypair_of S kpA" and ckA: "curve_keys S kpA pkA skA"
  shows "\<exists>es g1 n c g'. crypto_box_seal S (from_string S (kid_of kpA)) pk g = Inr (es, g1) \<and>
           es \<noteq> [] \<and> n \<noteq> [] \<and>
           crypto_box_seal_open S es pk sk = Inr (from_string S (kid_of kpA)) \<and>
           crypto_box_open_easy S c n pkA sk = Inr cek \<and>
           wrap_for S cek (Some kpA) (publicKey kp) g =
             Inr (\<lparr>encrypted_key = Some (b64url S (Buf c) True),
                   header = Some \<lparr>h_iv = Some (b64url S (Buf n) True), h_kid = kid_of kp,
                                  h_sender = Some (b64url S (Buf es) True)\<rparr>\<rparr>, g')"
proof -
  from box kp ck obtain es g1 where
    seal: "crypto_box_seal S (from_string S (kid_of kpA)) pk g = Inr (es, g1)" and
    ne: "es \<noteq> []" and
    opened: "crypto_box_seal_open S es pk sk = Inr (from_string S (kid_of kpA))"
    unfolding box_laws_def by blast
  obtain n g2 where rnd: "randombytes_buf S (crypto_box_NONCEBYTES S) g1 = (n, g2)"
    by (cases "randombytes_buf S (crypto_box_NONCEBYTES S) g1")
  from box have "length (fst (randombytes_buf S (crypto_box_NONCEBYTES S) g1)) = crypto_box_NONCEBYTES S"
    and "0 < crypto_box_NONCEBYTES S"
    unfolding box_laws_def by blast+
  with rnd have len: "length n = crypto_box_NONCEBYTES S" and n: "n \<noteq> []" by auto
  from box kpA ckA kp ck len obtain c where
    boxed: "crypto_box_easy S cek n pk skA = Inr c" and
    unboxed: "crypto_box_open_easy S c n pkA sk = Inr cek"
    unfolding box_laws_def by blast
  from ck have pk: "crypto_sign_ed25519_pk_to_curve25519 S (publicKey kp) = Inr pk"
    by (simp add: curve_keys_def)
  from ckA have skA: "crypto_sign_ed25519_sk_to_curve25519 S (privateKey kpA) = Inr skA"
    by (simp add: curve_keys_def)
  have "wrap_for S cek (Some kpA) (publicKey kp) g =
             Inr (\<lparr>encrypted_key = Some (b64url S (Buf c) True),
                   header = Some \<lparr>h_iv = Some (b64url S (Buf n) True), h_kid = kid_of kp,
                                  h_sender = Some (b64url S (Buf es) True)\<rparr>\<rparr>, g2)"
    using seal rnd boxed
    by (simp add: wrap_for_def pk skA kid_of_def any_to_Uint8Array_def Let_def)
  with seal ne n opened unboxed show ?thesis by blast
qed

lemma wrap_for_wraps:
  assumes box: "box_laws S" and key: "key_laws S" and kp: "keypair_of S kp"
    and sender: "sender_ok S fromKeys"
  shows "\<exists>r g'. wrap_for S cek fromKeys (publicKey kp) g = Inr (r, g') \<and> wraps S cek fromKeys kp r"
proof -
  from key kp obtain pk sk where ck: "curve_keys S kp pk sk"
    unfolding key_laws_def by blast
  show ?thesis
  proof (cases fromKeys)
    case None
    from wrap_for_anon [OF box kp ck, of cek g] obtain c g' where
      "crypto_box_seal S cek pk g = Inr (c, g')" "crypto_box_seal_open S c pk sk = Inr cek"
      "wrap_for S cek None (publicKey kp) g =
         Inr (\<lparr>encrypted_key = Some (b64url S (Buf c) True),
               header = Some \<lparr>h_iv = None, h_kid = kid_of kp, h_sender = None\<rparr>\<rparr>, g')"
      by blast
    then show ?thesis using ck None unfolding wraps_def by fastforce
  next
    case (Some kpA)
    with sender have kpA: "keypair_of S kpA" by (simp add: sender_ok_def)
    with key obtain pkA skA where ckA: "curve_keys S kpA pkA skA"
      unfolding key_laws_def by blast
    from wrap_for_auth [OF box kp ck kpA ckA, of g cek] obtain es g1 n c g' where
      "crypto_box_seal S (from_string S (kid_of kpA)) pk g = Inr (es, g1)"
      "es \<noteq> []" "n \<noteq> []"
      "crypto_box_seal_open S es pk sk = Inr (from_string S (kid_of kpA))"
      "crypto_box_open_easy S c n pkA sk = Inr cek"
      "wrap_for S cek (Some kpA) (publicKey kp) g =
         Inr (\<lparr>encrypted_key = Some (b64url S (Buf c) True),
               header = Some \<lparr>h_iv = Some (b64url S (Buf n) True), h_kid = kid_of kp,
                              h_sender = Some (b64url S (Buf es) True)\<rparr>\<rparr>, g')"
      by blast
    then show ?thesis using ck ckA Some unfolding wraps_def by fastforce
  qed
qed

lemma wrap_all_wraps:
  assumes box: "box_laws S" and key: "key_laws S" and sender: "sender_ok S fromKeys"
  shows "\<forall>kp\<in>set kps. keypair_of S kp \<Longrightarrow>
         \<exists>rs g'. wrap_all S cek fromKeys (map publicKey kps) g = Inr (rs, g') \<and>
                 list_all2 (wraps S cek fromKeys) kps rs"
proof (induction kps arbitrary: g)
  case Nil
  then show ?case by simp
next
  case (Cons kp kps)
  then have kp: "keypair_of S kp" and rest: "\<forall>kp\<in>set kps. keypair_of S kp" by simp_all
  from wrap_for_wraps [OF box key kp sender, of cek g] obtain r g1 where
    r: "wrap_for S cek fromKeys (publicKey kp) g = Inr (r, g1)" "wraps S cek fromKeys kp r"
    by blast
  from Cons.IH [OF rest, of g1] obtain rs g2 where
    rs: "wrap_all S cek fromKeys (map publicKey kps) g1 = Inr (rs, g2)"
      "list_all2 (wraps S cek fromKeys) kps rs"
    by blast
  from r rs show ?case by simp
qed

lemma memcmp_same_length: "length a = length b \<Longrightarrow> memcmp a b = Inr (a = b)"
  by (simp add: memcmp_def)

lemma Base58_decode_kid: "Base58_decode (kid_of kp) = Inr (publicKey kp)"
  by (simp add: kid_of_def Base58_roundtrip_bytes)

lemma locate_first:
  assumes utf8: "utf8_laws S" and w: "wraps S cek fromKeys kp r"
  shows "locateRecKey S (r # rest) kp = Inr (cek, map_option kid_of fromKeys, kid_of kp)"
proof -
  from w obtain pk sk where ck: "curve_keys S kp pk sk" unfolding wraps_def by blast
  then have pk: "crypto_sign_ed25519_pk_to_curve25519 S (publicKey kp) = Inr pk"
    and sk: "crypto_sign_ed25519_sk_to_curve25519 S (privateKey kp) = Inr sk"
    by (simp_all add: curve_keys_def)
  show ?thesis
  proof (cases fromKeys)
    case None
    with w ck obtain c where
      "crypto_box_seal_open S c pk sk = Inr cek"
      "r = \<lparr>encrypted_key = Some (b64url S (Buf c) True),
            header = Some \<lparr>h_iv = None, h_kid = kid_of kp, h_sender = None\<rparr>\<rparr>"
      unfolding wraps_def curve_keys_def by auto
    then show ?thesis
      by (simp add: None Base58_decode_kid memcmp_same_length pk sk b64dec_b64url)
  next
    case (Some kpA)
    with w ck obtain pkA skA es n c where
      ckA: "curve_keys S kpA pkA skA" and ne: "es \<noteq> []" "n \<noteq> []" and
      opened: "crypto_box_seal_open S es pk sk = Inr (from_string S (kid_of kpA))" and
      unboxed: "crypto_box_open_easy S c n pkA sk = Inr cek" and
      r: "r = \<lparr>encrypted_key = Some (b64url S (Buf c) True),
               header = Some \<lparr>h_iv = Some (b64url S (Buf n) True), h_kid = kid_of kp,
                              h_sender = Some (b64url S (Buf es) True)\<rparr>\<rparr>"
      unfolding wraps_def curve_keys_def by auto
    from ckA have pkA: "crypto_sign_ed25519_pk_to_curve25519 S (publicKey kpA) = Inr pkA"
      by (simp add: curve_keys_def)
    from utf8 have str: "to_string S (from_string S (kid_of kpA)) = Inr (kid_of kpA)"
      by (simp add: utf8_laws_def)
    show ?thesis
      by (simp add: Some r Base58_decode_kid memcmp_same_length pk sk b64dec_b64url
            b64dec_if_b64url [OF ne(1)] b64dec_if_b64url [OF ne(2)] opened str pkA unboxed)
  qed
qed

lemma locate_other:
  assumes key: "key_laws S" and w: "wraps S cek fromKeys kpB r"
    and kpB: "keypair_of S kpB" and kpC: "keypair_of S kpC" and rej: "rejects S kpB kpC"
  shows "locateRecKey S (r # rest) kpC = Inl SodiumError"
proof -
  from key kpC obtain pkC skC where ckC: "curve_keys S kpC pkC skC"
    unfolding key_laws_def by blast
  then have pk: "crypto_sign_ed25519_pk_to_curve25519 S (publicKey kpC) = Inr pkC"
    and sk: "crypto_sign_ed25519_sk_to_curve25519 S (privateKey kpC) = Inr skC"
    by (simp_all add: curve_keys_def)
  from key kpB kpC have len: "length (publicKey kpB) = length (publicKey kpC)"
    unfolding key_laws_def by simp
  from w obtain pkB skB where ckB: "curve_keys S kpB pkB skB" unfolding wraps_def by blast
  show ?thesis
  proof (cases fromKeys)
    case None
    with w ckB obtain c g g' where
      seal: "crypto_box_seal S cek pkB g = Inr (c, g')" and
      r: "r = \<lparr>encrypted_key = Some (b64url S (Buf c) True),
               header = Some \<lparr>h_iv = None, h_kid = kid_of kpB, h_sender = None\<rparr>\<rparr>"
      unfolding wraps_def curve_keys_def by auto
    from rej ckB ckC seal have "crypto_box_seal_open S c pkC skC = Inl SodiumError"
      unfolding rejects_def by blast
    then show ?thesis
      by (simp add: r Base58_decode_kid memcmp_same_length [OF len] pk sk b64dec_b64url)
  next
    case (Some kpA)
    with w ckB obtain es g g1 n c where
      ne: "es \<noteq> []" "n \<noteq> []" and
      seal: "crypto_box_seal S (from_string S (kid_of kpA)) pkB g = Inr (es, g1)" and
      r: "r = \<lparr>encrypted_key = Some (b64url S (Buf c) True),
               header = Some \<lparr>h_iv = Some (b64url S (Buf n) True), h_kid = kid_of kpB,
                              h_sender = Some (b64url S (Buf es) True)\<rparr>\<rparr>"
      unfolding wraps_def curve_keys_def by auto
    from rej ckB ckC seal have "crypto_box_seal_open S es pkC skC = Inl SodiumError"
      unfolding rejects_def by blast
    then show ?thesis
      by (simp add: r Base58_decode_kid memcmp_same_length [OF len] pk sk b64dec_b64url
            b64dec_if_b64url [OF ne(1)] b64dec_if_b64url [OF ne(2)])
  qed
qed

section \<open>Packing, then unpacking\<close>

lemma packMessage_parts:
  assumes "packMessage S J m toKeys fromKeys g = Inr (s, g2)"
  shows "\<exists>cek g0 rs g1 n ct tg.
           crypto_secretstream_xchacha20poly1305_keygen S g = (cek, g0) \<and>
           wrap_all S cek fromKeys toKeys g0 = Inr (rs, g1) \<and>
           randombytes_buf S (crypto_aead_chacha20poly1305_ietf_NPUBBYTES S) g1 = (n, g2) \<and>
           crypto_aead_chacha20poly1305_ietf_encrypt_detached S (from_string S m)
             (from_string S (protected_of S J (header_of fromKeys rs))) n cek = Inr (ct, tg) \<and>
           s = stringify_envelope J
                 (envelope_of S ct n (protected_of S J (header_of fromKeys rs)) tg)"
  using assms
  unfolding packMessage_def prepareRecipientKeys_def encryptPlaintext_def bindE_def
    header_of_def protected_of_def envelope_of_def Let_def any_to_Uint8Array_def
  by (auto split: sum.splits prod.splits)

lemma packMessage_built:
  assumes "crypto_secretstream_xchacha20poly1305_keygen S g = (cek, g0)"
    and "wrap_all S cek fromKeys toKeys g0 = Inr (rs, g1)"
    and "randombytes_buf S (crypto_aead_chacha20poly1305_ietf_NPUBBYTES S) g1 = (n, g2)"
    and "crypto_aead_chacha20poly1305_ietf_encrypt_detached S (from_string S m)
             (from_string S (protected_of S J (header_of fromKeys rs))) n cek = Inr (ct, tg)"
  shows "packMessage S J m toKeys fromKeys g =
           Inr (stringify_envelope J
                  (envelope_of S ct n (protected_of S J (header_of fromKeys rs)) tg), g2)"
  using assms
  unfolding packMessage_def prepareRecipientKeys_def encryptPlaintext_def
    header_of_def protected_of_def envelope_of_def Let_def any_to_Uint8Array_def
  by simp

lemma packMessage_success:
  assumes box: "box_laws S" and key: "key_laws S" and aead: "aead_laws S"
    and sender: "sender_ok S fromKeys" and kps: "\<forall>kp\<in>set kps. keypair_of S kp"
  shows "\<exists>cek rs n ct tg g'.
           packMessage S J m (map publicKey kps) fromKeys g =
             Inr (stringify_envelope J
                    (envelope_of S ct n (protected_of S J (header_of fromKeys rs)) tg), g') \<and>
           list_all2 (wraps S cek fromKeys) kps rs \<and>
           length n = crypto_aead_chacha20poly1305_ietf_NPUBBYTES S \<and>
           crypto_aead_chacha20poly1305_ietf_decrypt_detached S ct tg
             (from_string S (protected_of S J (header_of fromKeys rs))) n cek =
               Inr (from_string S m)"
proof -
  obtain cek g0 where kg: "crypto_secretstream_xchacha20poly1305_keygen S g = (cek, g0)"
    by (cases "crypto_secretstream_xchacha20poly1305_keygen S g")
  then have cek: "cek = fst (crypto_secretstream_xchacha20poly1305_keygen S g)" by simp
  from wrap_all_wraps [OF box key sender kps, of cek g0] obtain rs g1 where
    rs: "wrap_all S cek fromKeys (map publicKey kps) g0 = Inr (rs, g1)"
      "list_all2 (wraps S cek fromKeys) kps rs" by blast
  obtain n g2 where rnd:
    "randombytes_buf S (crypto_aead_chacha20poly1305_ietf_NPUBBYTES S) g1 = (n, g2)"
    by (cases "randombytes_buf S (crypto_aead_chacha20poly1305_ietf_NPUBBYTES S) g1")
  from box have
    "length (fst (randombytes_buf S (crypto_aead_chacha20poly1305_ietf_NPUBBYTES S) g1)) =
       crypto_aead_chacha20poly1305_ietf_NPUBBYTES S"
    unfolding box_laws_def by blast
  with rnd have len: "length n = crypto_aead_chacha20poly1305_ietf_NPUBBYTES S" by simp
  let ?P = "protected_of S J (header_of fromKeys rs)"
  from aead len obtain ct tg where
    e: "crypto_aead_chacha20poly1305_ietf_encrypt_detached S (from_string S m)
          (from_string S ?P) n cek = Inr (ct, tg)" and
    d: "crypto_aead_chacha20poly1305_ietf_decrypt_detached S ct tg (from_string S ?P) n cek =
          Inr (from_string S m)"
    unfolding aead_laws_def cek by blast
  from packMessage_built [OF kg rs(1) rnd e] rs(2) len d show ?thesis by blast
qed

lemma raw_keys_normalize:
  "normalize_key (publicKey (raw_keys kp)) = Inr (publicKey kp)"
  "normalize_key (privateKey (raw_keys kp)) = Inr (privateKey kp)"
  by (simp_all add: raw_keys_def normalize_key_def)

lemma unpackMessage_envelope:
  assumes json: "json_laws J" and utf8: "utf8_laws S"
    and a: "alg h = ''Authcrypt'' \<or> alg h = ''Anoncrypt''"
  shows "unpackMessage S J (Parsed (envelope_of S ct n (protected_of S J h) tg)) (raw_keys kp) =
           bindE (locateRecKey S (recipients h) kp) (\<lambda>(cek, senderVk, recipVk).
             if \<not> truthy senderVk \<and> alg h = ''Authcrypt'' then Inl MissingSenderKey
             else bindE (decryptPlaintext S ct tg (Str (protected_of S J h)) n cek)
                    (\<lambda>message'. Inr \<lparr>message = message', recipientKey = recipVk,
                                       senderKey = senderVk\<rparr>))"
proof -
  have hdr: "strB64dec S (protected_of S J h) = Inr (stringify_header J h)"
    by (simp add: protected_of_def strB64dec_b64url [OF utf8])
  from json have ph: "parse_header J (stringify_header J h) = Inr h"
    by (simp add: json_laws_def)
  have kp: "\<lparr>publicKey = publicKey kp, privateKey = privateKey kp\<rparr> = kp" by simp
  show ?thesis
    using a
    by (auto simp: unpackMessage_def raw_keys_normalize envelope_of_def hdr ph kp Let_def
          b64dec_b64url split: prod.splits intro!: arg_cong2 [where f = bindE] ext)
qed

lemma unpackMessage_Text:
  "json_laws J \<Longrightarrow>
   unpackMessage S J (Text (stringify_envelope J w)) keys = unpackMessage S J (Parsed w) keys"
  by (simp add: unpackMessage_def json_laws_def)

lemma Base58_encode_nonempty: "buffer \<noteq> [] \<Longrightarrow> Base58_encode buffer \<noteq> []"
  by (simp add: encode_form canon_nonempty)

lemma kid_of_truthy:
  assumes "key_laws S" "keypair_of S kp"
  shows "truthy (Some (kid_of kp))"
proof -
  from assms have "length (publicKey kp) = 32" unfolding key_laws_def by blast
  then have "map unat (publicKey kp) \<noteq> []" by auto
  then show ?thesis by (simp add: truthy_def kid_of_def Base58_encode_nonempty)
qed

lemma alg_header_of: "alg (header_of fromKeys rs) = ''Authcrypt'' \<or> alg (header_of fromKeys rs) = ''Anoncrypt''"
  by (simp add: header_of_def)

lemma unpack_first:
  assumes json: "json_laws J" and utf8: "utf8_laws S" and key: "key_laws S"
    and sender: "sender_ok S fromKeys"
    and w: "wraps S cek fromKeys kp r"
    and d: "crypto_aead_chacha20poly1305_ietf_decrypt_detached S ct tg
              (from_string S (protected_of S J (header_of fromKeys (r # rs)))) n cek =
                Inr (from_string S m)"
  shows "unpackMessage S J
           (Parsed (envelope_of S ct n (protected_of S J (header_of fromKeys (r # rs))) tg))
           (raw_keys kp) =
         Inr \<lparr>message = m, recipientKey = kid_of kp, senderKey = map_option kid_of fromKeys\<rparr>"
proof -
  have loc: "locateRecKey S (recipients (header_of fromKeys (r # rs))) kp =
               Inr (cek, map_option kid_of fromKeys, kid_of kp)"
    using locate_first [OF utf8 w] by (simp add: header_of_def)
  have chk: "\<not> (\<not> truthy (map_option kid_of fromKeys) \<and>
                alg (header_of fromKeys (r # rs)) = ''Authcrypt'')"
  proof (cases fromKeys)
    case None
    then show ?thesis by (simp add: header_of_def)
  next
    case (Some kpA)
    with sender have "keypair_of S kpA" by (simp add: sender_ok_def)
    from kid_of_truthy [OF key this] Some show ?thesis by simp
  qed
  from utf8 have str: "to_string S (from_string S m) = Inr m" by (simp add: utf8_laws_def)
  have dec: "decryptPlaintext S ct tg (Str (protected_of S J (header_of fromKeys (r # rs)))) n cek = Inr m"
    using d str by (simp add: decryptPlaintext_def any_to_Uint8Array_def)
  show ?thesis
    using chk
    by (simp add: unpackMessage_envelope [OF json utf8 alg_header_of] loc dec)
qed

lemma unpack_other:
  assumes json: "json_laws J" and utf8: "utf8_laws S" and key: "key_laws S"
    and w: "wraps S cek fromKeys kpB r"
    and kpB: "keypair_of S kpB" and kpC: "keypair_of S kpC" and rej: "rejects S kpB kpC"
  shows "unpackMessage S J
           (Parsed (envelope_of S ct n (protected_of S J (header_of fromKeys (r # rs))) tg))
           (raw_keys kpC) = Inl SodiumError"
proof -
  have "locateRecKey S (recipients (header_of fromKeys (r # rs))) kpC = Inl SodiumError"
    using locate_other [OF key w kpB kpC rej] by (simp add: header_of_def)
  then show ?thesis
    by (simp add: unpackMessage_envelope [OF json utf8 alg_header_of])
qed

text \<open>Packing for a first recipient \<open>kpB\<close>, and unpacking with \<open>kpB\<close> and with another pair.\<close>

lemma pack_then_unpack:
  assumes json: "json_laws J" and utf8: "utf8_laws S" and key: "key_laws S"
    and box: "box_laws S" and aead: "aead_laws S"
    and sender: "sender_ok S fromKeys"
    and kpB: "keypair_of S kpB" and kps: "\<forall>kp\<in>set kps. keypair_of S kp"
  shows "\<exists>s g' cek ct n tg rs.
           packMessage S J m (map publicKey (kpB # kps)) fromKeys g = Inr (s, g') \<and>
           parse_envelope J s =
             Inr (envelope_of S ct n (protected_of S J (header_of fromKeys rs)) tg) \<and>
           list_all2 (wraps S cek fromKeys) (kpB # kps) rs \<and>
           length n = crypto_aead_chacha20poly1305_ietf_NPUBBYTES S \<and>
           unpackMessage S J (Text s) (raw_keys kpB) =
             Inr \<lparr>message = m, recipientKey = kid_of kpB,
                  senderKey = map_option kid_of fromKeys\<rparr> \<and>
           (\<forall>kpC. keypair_of S kpC \<and> rejects S kpB kpC \<longrightarrow>
              unpackMessage S J (Text s) (raw_keys kpC) = Inl SodiumError)"
proof -
  have all: "\<forall>kp\<in>set (kpB # kps). keypair_of S kp" using kpB kps by simp
  from packMessage_success [OF box key aead sender all, of J m g]
  obtain cek rs n ct tg g' where
    p: "packMessage S J m (map publicKey (kpB # kps)) fromKeys g =
          Inr (stringify_envelope J
                 (envelope_of S ct n (protected_of S J (header_of fromKeys rs)) tg), g')" and
    ws: "list_all2 (wraps S cek fromKeys) (kpB # kps) rs" and
    len: "length n = crypto_aead_chacha20poly1305_ietf_NPUBBYTES S" and
    d: "crypto_aead_chacha20poly1305_ietf_decrypt_detached S ct tg
          (from_string S (protected_of S J (header_of fromKeys rs))) n cek =
            Inr (from_string S m)"
    by blast
  from ws obtain r rs' where rs: "rs = r # rs'" and w: "wraps S cek fromKeys kpB r"
    by (auto simp: list_all2_Cons1)
  let ?w = "envelope_of S ct n (protected_of S J (header_of fromKeys rs)) tg"
  let ?s = "stringify_envelope J ?w"
  have first: "unpackMessage S J (Text ?s) (raw_keys kpB) =
      Inr \<lparr>message = m, recipientKey = kid_of kpB, senderKey = map_option kid_of fromKeys\<rparr>"
    using unpack_first [OF json utf8 key sender w d [unfolded rs]]
    by (simp add: unpackMessage_Text [OF json] rs)
  have other: "\<forall>kpC. keypair_of S kpC \<and> rejects S kpB kpC \<longrightarrow>
              unpackMessage S J (Text ?s) (raw_keys kpC) = Inl SodiumError"
    using unpack_other [OF json utf8 key w kpB]
    by (simp add: unpackMessage_Text [OF json] rs)
  from json have pe: "parse_envelope J ?s = Inr ?w" by (simp add: json_laws_def)
  from p pe ws len first other show ?thesis by blast
qed

lemma wraps_entry:
  assumes "wraps S cek fromKeys kp r"
  shows "\<exists>hd ek. header r = Some hd \<and> encrypted_key r = Some ek \<and> h_kid hd = kid_of kp \<and>
           (case fromKeys of
              None \<Rightarrow> h_iv hd = None \<and> h_sender hd = None
            | Some keys \<Rightarrow> truthy (h_iv hd) \<and> truthy (h_sender hd))"
proof (cases fromKeys)
  case None
  with assms show ?thesis unfolding wraps_def by auto
next
  case (Some kpA)
  with assms show ?thesis unfolding wraps_def by (auto simp: truthy_b64url)
qed

lemma wraps_entries:
  assumes "list_all2 (wraps S cek fromKeys) kps rs" and "r \<in> set rs"
  shows "\<exists>hd ek. header r = Some hd \<and> encrypted_key r = Some ek \<and>
           (case fromKeys of
              None \<Rightarrow> h_iv hd = None \<and> h_sender hd = None
            | Some keys \<Rightarrow> truthy (h_iv hd) \<and> truthy (h_sender hd))"
proof -
  from assms obtain kp where "wraps S cek fromKeys kp r"
    by (auto simp: list_all2_conv_all_nth in_set_conv_nth)
  from wraps_entry [OF this] show ?thesis by blast
qed

lemma header_of_envelope:
  assumes "json_laws J" "utf8_laws S"
  shows "bindE (strB64dec S (protected (envelope_of S ct n (protected_of S J h) tg)))
           (parse_header J) = Inr h"
  using assms
  by (simp add: envelope_of_def protected_of_def strB64dec_b64url json_laws_def)

lemma pack_empty_then_unpack:
  assumes json: "json_laws J" and utf8: "utf8_laws S" and key: "key_laws S"
    and box: "box_laws S" and aead: "aead_laws S" and sender: "sender_ok S fromKeys"
  shows "\<exists>s g'. packMessage S J m [] fromKeys g = Inr (s, g') \<and>
           unpackMessage S J (Text s) (raw_keys kp) = Inl RecipientNotFound"
proof -
  have none: "\<forall>kp\<in>set []. keypair_of S kp" by simp
  from packMessage_success [OF box key aead sender none, of J m g]
  obtain n ct tg g' where
    p: "packMessage S J m [] fromKeys g =
          Inr (stringify_envelope J
                 (envelope_of S ct n (protected_of S J (header_of fromKeys [])) tg), g')"
    by auto
  have "unpackMessage S J
          (Parsed (envelope_of S ct n (protected_of S J (header_of fromKeys [])) tg))
          (raw_keys kp) = Inl RecipientNotFound"
    by (subst unpackMessage_envelope [OF json utf8 alg_header_of]) (simp add: header_of_def)
  with p show ?thesis by (auto simp: unpackMessage_Text [OF json])
qed

lemma ref_rejects:
  assumes kpB: "keypair_of ref_sodium kpB" and kpC: "keypair_of ref_sodium kpC"
    and ne: "publicKey kpB \<noteq> publicKey kpC"
  shows "rejects ref_sodium kpB kpC"
  unfolding rejects_def
proof (intro allI impI)
  fix pkB skB pkC skC m g c g'
  assume a: "curve_keys ref_sodium kpB pkB skB \<and> curve_keys ref_sodium kpC pkC skC \<and>
             crypto_box_seal ref_sodium m pkB g = Inr (c, g')"
  from kpB obtain seedB where sB: "length seedB = 32" "publicKey kpB = ref_public seedB"
    "privateKey kpB = seedB @ ref_public seedB" by (rule ref_keypair_of)
  from kpC obtain seedC where sC: "length seedC = 32" "publicKey kpC = ref_public seedC"
    "privateKey kpC = seedC @ ref_public seedC" by (rule ref_keypair_of)
  from a have pk: "pkB = ref_public seedB" "pkC = ref_public seedC" "skC = seedC"
    by (simp_all add: ref_curve_keys [OF sB] ref_curve_keys [OF sC])
  from a have "ref_seal m pkB g = Inr (c, g')" by (simp add: ref_sodium_def)
  then have c: "c = fst (ref_random 32 g) @ pkB @ m"
    by (auto simp: ref_seal_def split_def Let_def split: if_splits)
  have "take 32 (drop 32 c) = pkB"
    using sB(1) by (simp add: c pk ref_random_length ref_public_length)
  with ne sB sC pk have "take 32 (drop 32 c) \<noteq> pkC" by simp
  then show "crypto_box_seal_open ref_sodium c pkC skC = Inl SodiumError"
    by (simp add: ref_sodium_def ref_seal_open_def)
qed

lemma ref_keypair_is: "keypair_of ref_sodium (fst (ref_keypair g))"
  by (auto simp: keypair_of_def ref_sodium_def)

lemma ref_keypair_first: "publicKey (fst (ref_keypair g)) ! 0 = of_nat g + 1"
proof -
  have "[0..<32] = 0 # [1..<32]" by (simp add: upt_conv_Cons)
  then show ?thesis
    by (simp add: ref_keypair_def ref_random_def ref_public_def split_def Let_def)
qed

lemma ref_keypair_differ:
  "publicKey (fst (ref_keypair 7)) \<noteq> publicKey (fst (ref_keypair 50))"
proof
  assume "publicKey (fst (ref_keypair 7)) = publicKey (fst (ref_keypair 50))"
  then have "publicKey (fst (ref_keypair 7)) ! 0 = publicKey (fst (ref_keypair 50)) ! 0" by simp
  then show False by (simp add: ref_keypair_first)
qed

section \<open>Claims\<close>

text \<open>
  C3. For every 32-byte public key \<open>k\<close>, decoding the key identifier that \<open>encode\<close> makes
  gives \<open>k\<close> back: \<open>decode(encode(k)) == k\<close>. The identifier is \<open>did:key:z\<close> followed by the
  base-58 text of the two tag bytes \<open>0xed\<close>, \<open>0x01\<close> and the key (the code passes the tag as
  the single array element \<open>0xed01\<close>, which the codec encodes as those two bytes), and
  \<open>decode\<close> removes the prefix and the two tag bytes.
\<close>

theorem ed25519_roundtrip:
  assumes "length k = 32"
  shows "ed25519_decode (ed25519_encode k) = Inr k
       \<and> ed25519_encode k = ''did:key:z'' @ Base58_encode (0xed # 0x01 # map unat k)
       \<and> Base58_decode (Base58_encode (0xed # 0x01 # map unat k)) = Inr (0xed # 0x01 # k)"
  using ed25519_decode_encode [OF assms] encode_code_two_bytes [of k] decode_encode_key [of k]
  by (simp add: ed25519_encode_def)

theorem ed25519_roundtrip_witness:
  "length (replicate 32 (7 :: byte)) = 32
   \<and> ed25519_decode (ed25519_encode (replicate 32 7)) = Inr (replicate 32 7)"
proof -
  have h: "length (replicate 32 (7 :: byte)) = 32" by simp
  show ?thesis
    by (rule conjI [OF h conjunct1 [OF ed25519_roundtrip [OF h]]])
qed

text \<open>
  C7. For every byte string \<open>b\<close>, \<open>b64dec\<close> returns \<open>b\<close> from the base64url text of \<open>b\<close>
  whether the text carries all of its \<open>=\<close> padding, a part of it or none: the loop pads the
  text on the right to a multiple of four characters, which is the padded text, before it
  calls the decoder.
\<close>

theorem b64dec_padding:
  assumes "j \<le> b64_padding (length (to_base64 b URLSAFE_NO_PADDING))"
  shows "pad_to_4 (to_base64 b URLSAFE_NO_PADDING @ replicate j (CHR ''='')) = to_base64 b URLSAFE
       \<and> length (to_base64 b URLSAFE) mod 4 = 0
       \<and> b64dec (to_base64 b URLSAFE_NO_PADDING @ replicate j (CHR ''='')) = Inr b
       \<and> b64dec (to_base64 b URLSAFE_NO_PADDING) = Inr b
       \<and> b64dec (to_base64 b URLSAFE) = Inr b"
proof (intro conjI)
  show "pad_to_4 (to_base64 b URLSAFE_NO_PADDING @ replicate j (CHR ''='')) = to_base64 b URLSAFE"
    by (simp only: pad_to_4_partial [OF assms] to_base64_padded)
  show "length (to_base64 b URLSAFE) mod 4 = 0"
    by (rule length_to_base64_padded)
  show "b64dec (to_base64 b URLSAFE_NO_PADDING @ replicate j (CHR ''='')) = Inr b"
    by (rule b64dec_partial [OF assms])
  show "b64dec (to_base64 b URLSAFE_NO_PADDING) = Inr b"
    by (rule b64dec_to_base64)
  show "b64dec (to_base64 b URLSAFE) = Inr b"
    by (rule b64dec_to_base64)
qed

theorem b64dec_padding_witness:
  "1 \<le> b64_padding (length (to_base64 [1, 2, 3, 4] URLSAFE_NO_PADDING))
   \<and> b64dec (to_base64 [1, 2, 3, 4] URLSAFE_NO_PADDING @ replicate 1 (CHR ''='')) = Inr [1, 2, 3, 4]"
proof -
  have h: "1 \<le> b64_padding (length (to_base64 [1, 2, 3, 4] URLSAFE_NO_PADDING))"
    by (simp add: to_base64_def b64_padding_def)
  from b64dec_padding [OF h] have
    "b64dec (to_base64 [1, 2, 3, 4] URLSAFE_NO_PADDING @ replicate 1 (CHR ''='')) = Inr [1, 2, 3, 4]"
    by blast
  with h show ?thesis by (rule conjI)
qed

text \<open>
  C8. For every payload that JSON can carry and every key pair of the library,
  \<open>signedAttachment\<close> returns an attachment on which \<open>verifySignedAttachment\<close> returns
  \<open>true\<close> (it does not throw) and from which \<open>decodeSignedAttachment\<close> returns the payload;
  the signature in the attachment is valid over the bytes of
  \<open>protected + "." + base64\<close>.
\<close>

theorem signed_attachment_integrity:
  assumes sign: "sign_laws S" and key: "key_laws S" and utf8: "utf8_laws S" and json: "json_laws J"
    and kp: "keypair_of S keys"
  shows "\<exists>att sig. signedAttachment S J payload keys = Inr att
        \<and> verifySignedAttachment S att = Inr True
        \<and> decodeSignedAttachment S J att = Inr payload
        \<and> b64dec (jws_signature att) = Inr sig
        \<and> crypto_sign_verify_detached S sig
             (Buffer_from_ascii (jws_protected att @ ''.'' @ base64 att)) (publicKey keys) = Inr True"
proof -
  let ?didkey = "ed25519_encode (publicKey keys)"
  let ?hdr = "b64url S (Str (stringify_jose J
              \<lparr>jose_alg = ''EdDSA'',
               jwk = \<lparr>jwk_crv = ''Ed25519'', jwk_kid = ?didkey, jwk_kty = ''OKP'',
                      jwk_x = b64url S (Buf (publicKey keys)) False\<rparr>,
               jose_kid = ?didkey\<rparr>)) False"
  let ?sigData = "b64url S (Str (stringify J payload)) False"
  let ?input = "Buffer_from_ascii (?hdr @ ''.'' @ ?sigData)"
  from sign kp obtain sig where
    sig: "crypto_sign_detached S ?input (privateKey keys) = Inr sig"
    and ver: "crypto_sign_verify_detached S sig ?input (publicKey keys) = Inr True"
    unfolding sign_laws_def by blast
  let ?att = "\<lparr>base64 = ?sigData, jws_header_kid = ?didkey, jws_protected = ?hdr,
               jws_signature = b64url S (Buf sig) False, mime_type = ''application/json''\<rparr>"
  have len: "length (publicKey keys) = 32" using key kp unfolding key_laws_def by blast
  have mk: "signedAttachment S J payload keys = Inr ?att"
    using sig by (simp add: signedAttachment_def Let_def bindE_def)
  have same: "Buffer_from (?hdr @ ''.'' @ ?sigData) = ?input"
    by (rule signing_input_ascii)
  have vf: "verifySignedAttachment S ?att = Inr True"
    using same ver
    by (simp add: verifySignedAttachment_def Let_def b64dec_b64url_any any_to_Uint8Array_def
          ed25519_decode_encode [OF len] bindE_def)
  have dc: "decodeSignedAttachment S J ?att = Inr payload"
    using json by (simp add: decodeSignedAttachment_def strB64dec_b64url [OF utf8] bindE_def json_laws_def)
  have sg: "b64dec (jws_signature ?att) = Inr sig"
    by (simp add: b64dec_b64url_any any_to_Uint8Array_def)
  have vr: "crypto_sign_verify_detached S sig
             (Buffer_from_ascii (jws_protected ?att @ ''.'' @ base64 ?att)) (publicKey keys) = Inr True"
    using ver by simp
  from mk vf dc sg vr show ?thesis by blast
qed

theorem signed_attachment_integrity_witness:
  "sign_laws ref_sodium \<and> key_laws ref_sodium \<and> utf8_laws ref_sodium \<and> json_laws ref_JSON
   \<and> keypair_of ref_sodium (fst (ref_keypair 7))
   \<and> (\<exists>att sig. signedAttachment ref_sodium ref_JSON [(''test'', ''test'')] (fst (ref_keypair 7)) = Inr att
        \<and> verifySignedAttachment ref_sodium att = Inr True
        \<and> decodeSignedAttachment ref_sodium ref_JSON att = Inr [(''test'', ''test'')]
        \<and> b64dec (jws_signature att) = Inr sig
        \<and> crypto_sign_verify_detached ref_sodium sig
             (Buffer_from_ascii (jws_protected att @ ''.'' @ base64 att))
             (publicKey (fst (ref_keypair 7))) = Inr True)"
proof -
  have kp: "keypair_of ref_sodium (fst (ref_keypair 7))"
    by (auto simp: keypair_of_def ref_sodium_def)
  from signed_attachment_integrity [OF ref_sign ref_key ref_utf8 ref_json kp, of "[(''test'', ''test'')]"]
  show ?thesis using ref_sign ref_key ref_utf8 ref_json kp by blast
qed

text \<open>
  C1. The claim is that a recipient at any position of the list recovers the plaintext. The
  loop of \<open>locateRecKey\<close> returns from its first round, so only the first entry is ever
  opened: for recipients \<open>[B, C]\<close>, with or without a sender, \<open>packMessage\<close> succeeds and
  \<open>unpackMessage\<close> returns the message to \<open>B\<close>, while for \<open>C\<close> it ends in the library's error
  for the entry sealed to \<open>B\<close>.
\<close>

theorem later_recipient_cannot_unpack:
  assumes json: "json_laws J" and utf8: "utf8_laws S" and key: "key_laws S"
    and box: "box_laws S" and aead: "aead_laws S" and sender: "sender_ok S fromKeys"
    and kpB: "keypair_of S kpB" and kpC: "keypair_of S kpC" and rej: "rejects S kpB kpC"
  shows "\<exists>s g'. packMessage S J m [publicKey kpB, publicKey kpC] fromKeys g = Inr (s, g')
           \<and> (\<exists>r. unpackMessage S J (Text s) (raw_keys kpB) = Inr r \<and> message r = m)
           \<and> unpackMessage S J (Text s) (raw_keys kpC) = Inl SodiumError"
proof -
  have kps: "\<forall>kp\<in>set [kpC]. keypair_of S kp" using kpC by simp
  from pack_then_unpack [OF json utf8 key box aead sender kpB kps, of m g]
  obtain s g' where
    "packMessage S J m (map publicKey [kpB, kpC]) fromKeys g = Inr (s, g')"
    "unpackMessage S J (Text s) (raw_keys kpB) =
       Inr \<lparr>message = m, recipientKey = kid_of kpB, senderKey = map_option kid_of fromKeys\<rparr>"
    "\<forall>kp. keypair_of S kp \<and> rejects S kpB kp \<longrightarrow>
       unpackMessage S J (Text s) (raw_keys kp) = Inl SodiumError"
    by blast
  with kpC rej show ?thesis by auto
qed

theorem later_recipient_cannot_unpack_witness:
  "json_laws ref_JSON \<and> utf8_laws ref_sodium \<and> key_laws ref_sodium \<and> box_laws ref_sodium
   \<and> aead_laws ref_sodium \<and> sender_ok ref_sodium None
   \<and> keypair_of ref_sodium (fst (ref_keypair 7)) \<and> keypair_of ref_sodium (fst (ref_keypair 50))
   \<and> rejects ref_sodium (fst (ref_keypair 7)) (fst (ref_keypair 50))
   \<and> (\<exists>s g'. packMessage ref_sodium ref_JSON ''I AM A PRIVATE MESSAGE''
                 [publicKey (fst (ref_keypair 7)), publicKey (fst (ref_keypair 50))] None 0
               = Inr (s, g')
           \<and> (\<exists>r. unpackMessage ref_sodium ref_JSON (Text s) (raw_keys (fst (ref_keypair 7))) = Inr r
                  \<and> message r = ''I AM A PRIVATE MESSAGE'')
           \<and> unpackMessage ref_sodium ref_JSON (Text s) (raw_keys (fst (ref_keypair 50)))
               = Inl SodiumError)"
proof -
  have so: "sender_ok ref_sodium None" by (simp add: sender_ok_def)
  have rej: "rejects ref_sodium (fst (ref_keypair 7)) (fst (ref_keypair 50))"
    by (rule ref_rejects [OF ref_keypair_is ref_keypair_is ref_keypair_differ])
  from later_recipient_cannot_unpack
    [OF ref_json ref_utf8 ref_key ref_box_laws ref_aead so ref_keypair_is ref_keypair_is rej,
     of "''I AM A PRIVATE MESSAGE''" 0]
  show ?thesis
    using ref_json ref_utf8 ref_key ref_box_laws ref_aead so rej
      ref_keypair_is [of 7] ref_keypair_is [of 50]
    by (intro conjI) assumption+
qed

text \<open>
  C2. The claim is that a key pair outside the recipient list gets \<open>RecipientNotFound\<close> and no
  other error, however long the list is. For a list that is not empty, \<open>locateRecKey\<close> tries
  to open the first entry with the stranger's keys and the call ends in the library's error;
  \<open>RecipientNotFound\<close> is what it throws for the empty list only.
\<close>

theorem stranger_gets_library_error:
  assumes json: "json_laws J" and utf8: "utf8_laws S" and key: "key_laws S"
    and box: "box_laws S" and aead: "aead_laws S" and sender: "sender_ok S fromKeys"
    and kpB: "keypair_of S kpB" and kps: "\<forall>kp\<in>set kps. keypair_of S kp"
    and kpC: "keypair_of S kpC"
    and stranger: "publicKey kpC \<notin> set (map publicKey (kpB # kps))"
    and rej: "rejects S kpB kpC"
  shows "(\<exists>s g'. packMessage S J m (map publicKey (kpB # kps)) fromKeys g = Inr (s, g')
            \<and> unpackMessage S J (Text s) (raw_keys kpC) = Inl SodiumError
            \<and> unpackMessage S J (Text s) (raw_keys kpC) \<noteq> Inl RecipientNotFound)
       \<and> (\<exists>s g'. packMessage S J m [] fromKeys g = Inr (s, g')
            \<and> unpackMessage S J (Text s) (raw_keys kpC) = Inl RecipientNotFound)"
proof
  from pack_then_unpack [OF json utf8 key box aead sender kpB kps, of m g]
  obtain s g' where
    "packMessage S J m (map publicKey (kpB # kps)) fromKeys g = Inr (s, g')"
    "\<forall>kp. keypair_of S kp \<and> rejects S kpB kp \<longrightarrow>
       unpackMessage S J (Text s) (raw_keys kp) = Inl SodiumError"
    by blast
  with kpC rej show "\<exists>s g'. packMessage S J m (map publicKey (kpB # kps)) fromKeys g = Inr (s, g')
            \<and> unpackMessage S J (Text s) (raw_keys kpC) = Inl SodiumError
            \<and> unpackMessage S J (Text s) (raw_keys kpC) \<noteq> Inl RecipientNotFound"
    by auto
  show "\<exists>s g'. packMessage S J m [] fromKeys g = Inr (s, g')
            \<and> unpackMessage S J (Text s) (raw_keys kpC) = Inl RecipientNotFound"
    by (rule pack_empty_then_unpack [OF json utf8 key box aead sender])
qed

theorem stranger_gets_library_error_witness:
  "json_laws ref_JSON \<and> utf8_laws ref_sodium \<and> key_laws ref_sodium \<and> box_laws ref_sodium
   \<and> aead_laws ref_sodium \<and> sender_ok ref_sodium None
   \<and> keypair_of ref_sodium (fst (ref_keypair 7)) \<and> keypair_of ref_sodium (fst (ref_keypair 50))
   \<and> publicKey (fst (ref_keypair 50)) \<notin> set (map publicKey [fst (ref_keypair 7)])
   \<and> rejects ref_sodium (fst (ref_keypair 7)) (fst (ref_keypair 50))
   \<and> (\<exists>s g'. packMessage ref_sodium ref_JSON ''I AM A PRIVATE MESSAGE''
                 (map publicKey [fst (ref_keypair 7)]) None 0 = Inr (s, g')
           \<and> unpackMessage ref_sodium ref_JSON (Text s) (raw_keys (fst (ref_keypair 50)))
               = Inl SodiumError
           \<and> unpackMessage ref_sodium ref_JSON (Text s) (raw_keys (fst (ref_keypair 50)))
               \<noteq> Inl RecipientNotFound)"
proof -
  have so: "sender_ok ref_sodium None" by (simp add: sender_ok_def)
  have rej: "rejects ref_sodium (fst (ref_keypair 7)) (fst (ref_keypair 50))"
    by (rule ref_rejects [OF ref_keypair_is ref_keypair_is ref_keypair_differ])
  have none: "\<forall>kp\<in>set []. keypair_of ref_sodium kp" by simp
  have str: "publicKey (fst (ref_keypair 50)) \<notin> set (map publicKey [fst (ref_keypair 7)])"
    using ref_keypair_differ by auto
  from stranger_gets_library_error
    [OF ref_json ref_utf8 ref_key ref_box_laws ref_aead so ref_keypair_is none ref_keypair_is
        str rej, of "''I AM A PRIVATE MESSAGE''" 0]
  have "\<exists>s g'. packMessage ref_sodium ref_JSON ''I AM A PRIVATE MESSAGE''
                 (map publicKey [fst (ref_keypair 7)]) None 0 = Inr (s, g')
           \<and> unpackMessage ref_sodium ref_JSON (Text s) (raw_keys (fst (ref_keypair 50)))
               = Inl SodiumError
           \<and> unpackMessage ref_sodium ref_JSON (Text s) (raw_keys (fst (ref_keypair 50)))
               \<noteq> Inl RecipientNotFound"
    by (rule conjunct1)
  then show ?thesis
    using ref_json ref_utf8 ref_key ref_box_laws ref_aead so rej str
      ref_keypair_is [of 7] ref_keypair_is [of 50]
    by (intro conjI) assumption+
qed

end
